theory Spec2Isabelle
  imports Main "HOL-Library.Word"
begin

unbundle bit_operations_syntax

section \<open>Data model\<close>

text \<open>
  State ids and labels are the signed integers of the source (\<^verbatim>\<open>StateId\<close>,
  \<^verbatim>\<open>Label\<close>), modelled as unbounded \<^typ>\<open>int\<close>: no claim depends on
  their width. \<^verbatim>\<open>kNoStateId\<close> is \<open>-1\<close> and label \<open>0\<close> is epsilon.
  A weight is a value of an opaque type with the two constants \<^verbatim>\<open>Weight::Zero()\<close>
  and \<^verbatim>\<open>Weight::One()\<close>, written \<open>0\<close> and \<open>1\<close> of the type.
\<close>

abbreviation (input) kNoStateId :: int where
  "kNoStateId \<equiv> - 1"

abbreviation (input) Weight_Zero :: "'w::zero" where
  "Weight_Zero \<equiv> 0"

abbreviation (input) Weight_One :: "'w::one" where
  "Weight_One \<equiv> 1"

record 'w arc =
  ilabel :: int
  olabel :: int
  weight :: 'w
  nextstate :: int

text \<open>The constructor \<^verbatim>\<open>Arc(ilabel, olabel, weight, nextstate)\<close>.\<close>

definition Arc :: "int \<Rightarrow> int \<Rightarrow> 'w \<Rightarrow> int \<Rightarrow> 'w arc" where
  "Arc i ol w n = \<lparr>ilabel = i, olabel = ol, weight = w, nextstate = n\<rparr>"

text \<open>
  The pseudo-arc \<^verbatim>\<open>A(0, 0, final_weight, kNoStateId)\<close> by which a final weight is handed
  to a mapper.
\<close>

definition final_pseudo_arc :: "'w \<Rightarrow> 'w arc" where
  "final_pseudo_arc w = Arc 0 0 w kNoStateId"

record 'w vstate =
  final :: 'w
  arcs :: "'w arc list"

text \<open>
  Modelled from the spec: the automaton contract (\<^verbatim>\<open>Fst\<close>, \<^verbatim>\<open>MutableFst\<close>, declared in
  fst.h and mutable-fst.h and implemented in vector-fst.h) is not under src/. Following
  section 3 of the spec an automaton is a start state id (or \<^verbatim>\<open>kNoStateId\<close>), a final weight
  and an out-arc list per state, a property bitmask (\<^verbatim>\<open>uint64_t\<close>) and the two symbol tables
  (\<open>None\<close> is \<^verbatim>\<open>nullptr\<close>). States are numbered \<open>0 .. NumStates - 1\<close> in storage order.
  Reading a state id that is out of range is undefined behaviour in the source and
  unspecified here (\<open>xs ! i\<close>).
\<close>

record ('w, 'st) wfst =
  start :: int
  states :: "'w vstate list"
  props :: "64 word"
  isymbols :: "'st option"
  osymbols :: "'st option"

definition NumStates :: "('w, 'st) wfst \<Rightarrow> int" where
  "NumStates f = int (length (states f))"

definition fst_Final :: "('w, 'st) wfst \<Rightarrow> int \<Rightarrow> 'w" where
  "fst_Final f s = final (states f ! nat s)"

definition fst_Arcs :: "('w, 'st) wfst \<Rightarrow> int \<Rightarrow> 'w arc list" where
  "fst_Arcs f s = arcs (states f ! nat s)"

text \<open>The ids a \<^verbatim>\<open>StateIterator\<close> over a stored automaton yields.\<close>

definition fst_StateIds :: "('w, 'st) wfst \<Rightarrow> int list" where
  "fst_StateIds f = map int [0 ..< length (states f)]"

text \<open>The cache options, \<^verbatim>\<open>CacheOptions(gc, gc_limit)\<close>.\<close>

record CacheOptions =
  gc :: bool
  gc_limit :: nat

text \<open>
  Modelled from the spec: properties.h is not under src/. The property constants the
  code names, and the combinator \<^verbatim>\<open>UnionProperties\<close>, are the fields of one record, a
  parameter of every function that uses them, so that nothing proved depends on a bit
  layout. \<^verbatim>\<open>Properties(mask, false)\<close> returns the
  stored bits under the mask. \<^verbatim>\<open>SetProperties(props, mask)\<close> overwrites the bits under the
  mask and \<^verbatim>\<open>SetProperties(props)\<close> all bits, each keeping an error bit that is already set
  (section 7: errors are sticky and never cleared).

  The record has one more field for the other collaborator that is not under src/, the
  garbage collector of the cache store (cache.h; the store is the template parameter
  \<^verbatim>\<open>CacheStore\<close> of \<^verbatim>\<open>ArcMapFst\<close>): \<open>CacheStore_gc opts cached s t\<close> says whether a store that
  was built with the options \<open>opts\<close> and holds an entry for the states in \<open>cached\<close> drops
  the entry of the state \<open>t\<close> when it is asked to change the entry of the state \<open>s\<close>.
  Nothing is assumed about it.
\<close>

record prop_consts =
  kError :: "64 word"
  kFstProperties :: "64 word"
  kCopyProperties :: "64 word"
  kNullProperties :: "64 word"
  kInitialAcyclic :: "64 word"
  kAcceptor :: "64 word"
  UnionProperties :: "64 word \<Rightarrow> 64 word \<Rightarrow> 64 word"
  CacheStore_gc :: "CacheOptions \<Rightarrow> (int \<Rightarrow> bool) \<Rightarrow> int \<Rightarrow> int \<Rightarrow> bool"

definition set_props_mask :: "prop_consts \<Rightarrow> 64 word \<Rightarrow> 64 word \<Rightarrow> 64 word \<Rightarrow> 64 word" where
  "set_props_mask K p new msk = ((p AND (NOT msk OR kError K)) OR (new AND msk))"

definition set_props_all :: "prop_consts \<Rightarrow> 64 word \<Rightarrow> 64 word \<Rightarrow> 64 word" where
  "set_props_all K p new = ((p AND kError K) OR new)"

definition fst_Properties :: "('w, 'st) wfst \<Rightarrow> 64 word \<Rightarrow> 64 word" where
  "fst_Properties f msk = (props f AND msk)"

definition SetProperties :: "prop_consts \<Rightarrow> 64 word \<Rightarrow> 64 word \<Rightarrow> ('w, 'st) wfst \<Rightarrow> ('w, 'st) wfst" where
  "SetProperties K new msk f = f\<lparr>props := set_props_mask K (props f) new msk\<rparr>"

text \<open>An automaton carries the error bit when \<^verbatim>\<open>Properties(kError, false)\<close> is \<^verbatim>\<open>kError\<close>.\<close>

definition has_error :: "prop_consts \<Rightarrow> 64 word \<Rightarrow> bool" where
  "has_error K p = (p AND kError K = kError K)"

text \<open>
  Modelled from the spec: the mutators of \<^verbatim>\<open>MutableFst\<close> (vector-fst.h, not under src/).
  \<^verbatim>\<open>AddState\<close> appends a state with final weight \<^verbatim>\<open>Zero()\<close> and no arcs and returns its id,
  \<^verbatim>\<open>SetFinal\<close> and \<^verbatim>\<open>AddArc\<close> change one state, \<^verbatim>\<open>DeleteStates\<close> removes every state and
  the start state. The property bits these mutators recompute are not modelled: they leave
  the stored mask alone here, and in the source they never set or clear the error bit.
\<close>

definition new_state :: "'w::zero vstate" where
  "new_state = \<lparr>final = Weight_Zero, arcs = []\<rparr>"

definition AddState :: "('w::zero, 'st) wfst \<Rightarrow> ('w, 'st) wfst" where
  "AddState f = f\<lparr>states := states f @ [new_state]\<rparr>"

definition SetFinal :: "int \<Rightarrow> 'w \<Rightarrow> ('w, 'st) wfst \<Rightarrow> ('w, 'st) wfst" where
  "SetFinal s w f = f\<lparr>states := (states f)[nat s := (states f ! nat s)\<lparr>final := w\<rparr>]\<rparr>"

definition AddArc :: "int \<Rightarrow> 'w arc \<Rightarrow> ('w, 'st) wfst \<Rightarrow> ('w, 'st) wfst" where
  "AddArc s a f =
     f\<lparr>states := (states f)[nat s := (states f ! nat s)\<lparr>arcs := arcs (states f ! nat s) @ [a]\<rparr>]\<rparr>"

definition SetStart :: "int \<Rightarrow> ('w, 'st) wfst \<Rightarrow> ('w, 'st) wfst" where
  "SetStart s f = f\<lparr>start := s\<rparr>"

definition DeleteStates :: "('w, 'st) wfst \<Rightarrow> ('w, 'st) wfst" where
  "DeleteStates f = f\<lparr>states := [], start := kNoStateId\<rparr>"

definition SetInputSymbols :: "'st option \<Rightarrow> ('w, 'st) wfst \<Rightarrow> ('w, 'st) wfst" where
  "SetInputSymbols t f = f\<lparr>isymbols := t\<rparr>"

definition SetOutputSymbols :: "'st option \<Rightarrow> ('w, 'st) wfst \<Rightarrow> ('w, 'st) wfst" where
  "SetOutputSymbols t f = f\<lparr>osymbols := t\<rparr>"

section \<open>The arc mapper contract (arc-map.h)\<close>

datatype MapFinalAction = MAP_NO_SUPERFINAL | MAP_ALLOW_SUPERFINAL | MAP_REQUIRE_SUPERFINAL

datatype MapSymbolsAction = MAP_CLEAR_SYMBOLS | MAP_COPY_SYMBOLS | MAP_NOOP_SYMBOLS

text \<open>
  A mapper object: \<^verbatim>\<open>operator()\<close> from arcs of the source weight type to arcs of the target
  weight type, the three declared actions and \<^verbatim>\<open>Properties\<close>. The function is pure
  (section 4.3); the lazy wrapper below records every call it makes in a log, which
  stands for the call counter of an instrumented mapper.
\<close>

record ('a, 'b) ArcMapper =
  map_arc :: "'a arc \<Rightarrow> 'b arc"
  FinalAction :: MapFinalAction
  InputSymbolsAction :: MapSymbolsAction
  OutputSymbolsAction :: MapSymbolsAction
  Properties :: "64 word \<Rightarrow> 64 word"

text \<open>The test \<^verbatim>\<open>final_arc.ilabel != 0 || final_arc.olabel != 0\<close>.\<close>

definition nonzero_labels :: "'w arc \<Rightarrow> bool" where
  "nonzero_labels a = (ilabel a \<noteq> 0 \<or> olabel a \<noteq> 0)"


section \<open>Eager arc map, in place: \<^verbatim>\<open>ArcMap(MutableFst<A> *fst, C *mapper)\<close>\<close>

text \<open>The inner loop: \<^verbatim>\<open>aiter.SetValue((*mapper)(arc))\<close> for every arc of \<open>state\<close>.\<close>

definition map_arcs_inplace :: "('w, 'w) ArcMapper \<Rightarrow> int \<Rightarrow> ('w, 'st) wfst \<Rightarrow> ('w, 'st) wfst" where
  "map_arcs_inplace m state f =
     f\<lparr>states := (states f)[nat state :=
        (states f ! nat state)\<lparr>arcs := map (map_arc m) (arcs (states f ! nat state))\<rparr>]\<rparr>"

text \<open>
  \<^verbatim>\<open>superfinal = fst->AddState(); fst->SetFinal(superfinal);\<close> The weight argument of
  \<^verbatim>\<open>SetFinal\<close> defaults to \<^verbatim>\<open>Weight::One()\<close>. The result is the automaton and the new id.
\<close>

definition add_superfinal :: "('w::{zero,one}, 'st) wfst \<Rightarrow> ('w, 'st) wfst \<times> int" where
  "add_superfinal f = (SetFinal (NumStates f) Weight_One (AddState f), NumStates f)"

text \<open>
  The body of the loop over the states: the arcs, then the switch on the final action.
  The loop carries the automaton and the local \<^verbatim>\<open>superfinal\<close>. \<^verbatim>\<open>FSTERROR()\<close> only writes
  a log line.
\<close>

definition ArcMap_inplace_state ::
  "prop_consts \<Rightarrow> ('w::{zero,one}, 'w) ArcMapper \<Rightarrow> MapFinalAction \<Rightarrow>
   ('w, 'st) wfst \<times> int \<Rightarrow> int \<Rightarrow> ('w, 'st) wfst \<times> int" where
  "ArcMap_inplace_state K m final_action fs state =
     (case fs of (f0, superfinal) \<Rightarrow>
        let f = map_arcs_inplace m state f0 in
        (case final_action of
           MAP_NO_SUPERFINAL \<Rightarrow>
             let final_arc = map_arc m (final_pseudo_arc (fst_Final f state));
                 f1 = (if nonzero_labels final_arc
                       then SetProperties K (kError K) (kError K) f else f)
             in (SetFinal state (weight final_arc) f1, superfinal)
         | MAP_ALLOW_SUPERFINAL \<Rightarrow>
             if state \<noteq> superfinal then
               let final_arc = map_arc m (final_pseudo_arc (fst_Final f state)) in
               if nonzero_labels final_arc then
                 (case (if superfinal = kNoStateId then add_superfinal f else (f, superfinal)) of
                    (f1, superfinal1) \<Rightarrow>
                      (SetFinal state Weight_Zero
                         (AddArc state (final_arc\<lparr>nextstate := superfinal1\<rparr>) f1), superfinal1))
               else (SetFinal state (weight final_arc) f, superfinal)
             else (f, superfinal)
         | MAP_REQUIRE_SUPERFINAL \<Rightarrow>
             if state \<noteq> superfinal then
               let final_arc = map_arc m (final_pseudo_arc (fst_Final f state));
                   f1 = (if nonzero_labels final_arc \<or> weight final_arc \<noteq> Weight_Zero
                         then AddArc state
                                (Arc (ilabel final_arc) (olabel final_arc) (weight final_arc) superfinal) f
                         else f)
               in (SetFinal state Weight_Zero f1, superfinal)
             else (f, superfinal)))"

text \<open>
  The function. The \<^verbatim>\<open>StateIterator\<close> is constructed after the superfinal state of the
  require-superfinal policy is added, and its range is the states that exist then.
\<close>

definition ArcMap_inplace ::
  "prop_consts \<Rightarrow> ('w::{zero,one}, 'w) ArcMapper \<Rightarrow> ('w, 'st) wfst \<Rightarrow> ('w, 'st) wfst" where
  "ArcMap_inplace K m fst0 =
     (let f1 = (if InputSymbolsAction m = MAP_CLEAR_SYMBOLS then SetInputSymbols None fst0 else fst0);
          f2 = (if OutputSymbolsAction m = MAP_CLEAR_SYMBOLS then SetOutputSymbols None f1 else f1)
      in if start f2 = kNoStateId then f2
         else
           let props0 = fst_Properties f2 (kFstProperties K);
               final_action = FinalAction m;
               fs = (if final_action = MAP_REQUIRE_SUPERFINAL then add_superfinal f2
                     else (f2, kNoStateId));
               fs1 = foldl (ArcMap_inplace_state K m final_action) fs (fst_StateIds (fst fs))
           in SetProperties K (Properties m props0) (kFstProperties K) (fst fs1))"

section \<open>Eager arc map, copying: \<^verbatim>\<open>ArcMap(const Fst<A> &ifst, MutableFst<B> *ofst, C *mapper)\<close>\<close>

text \<open>
  The body of the second loop over the states of \<open>ifst\<close>. \<^verbatim>\<open>ReserveStates\<close> and
  \<^verbatim>\<open>ReserveArcs\<close> only reserve memory and are left out.
\<close>

definition ArcMap_copy_state ::
  "prop_consts \<Rightarrow> ('a, 'b::{zero,one}) ArcMapper \<Rightarrow> MapFinalAction \<Rightarrow> ('a, 'st) wfst \<Rightarrow>
   ('b, 'st) wfst \<times> int \<Rightarrow> int \<Rightarrow> ('b, 'st) wfst \<times> int" where
  "ArcMap_copy_state K m final_action ifst os s =
     (case os of (ofst0, superfinal) \<Rightarrow>
        let ofst1 = (if s = start ifst then SetStart s ofst0 else ofst0);
            ofst = foldl (\<lambda>f a. AddArc s (map_arc m a) f) ofst1 (fst_Arcs ifst s);
            final_arc = map_arc m (final_pseudo_arc (fst_Final ifst s))
        in
        (case final_action of
           MAP_NO_SUPERFINAL \<Rightarrow>
             let o1 = (if nonzero_labels final_arc
                       then SetProperties K (kError K) (kError K) ofst else ofst)
             in (SetFinal s (weight final_arc) o1, superfinal)
         | MAP_ALLOW_SUPERFINAL \<Rightarrow>
             if nonzero_labels final_arc then
               (case (if superfinal = kNoStateId then add_superfinal ofst else (ofst, superfinal)) of
                  (o1, superfinal1) \<Rightarrow>
                    (SetFinal s Weight_Zero
                       (AddArc s (final_arc\<lparr>nextstate := superfinal1\<rparr>) o1), superfinal1))
             else (SetFinal s (weight final_arc) ofst, superfinal)
         | MAP_REQUIRE_SUPERFINAL \<Rightarrow>
             let o1 = (if nonzero_labels final_arc \<or> weight final_arc \<noteq> Weight_Zero
                       then AddArc s
                              (Arc (ilabel final_arc) (olabel final_arc) (weight final_arc) superfinal) ofst
                       else ofst)
             in (SetFinal s Weight_Zero o1, superfinal)))"

definition ArcMap_copy ::
  "prop_consts \<Rightarrow> ('a, 'b::{zero,one}) ArcMapper \<Rightarrow> ('a, 'st) wfst \<Rightarrow> ('b, 'st) wfst \<Rightarrow> ('b, 'st) wfst" where
  "ArcMap_copy K m ifst ofst0 =
     (let o1 = DeleteStates ofst0;
          o2 = (if InputSymbolsAction m = MAP_COPY_SYMBOLS then SetInputSymbols (isymbols ifst) o1
                else if InputSymbolsAction m = MAP_CLEAR_SYMBOLS then SetInputSymbols None o1
                else o1);
          o3 = (if OutputSymbolsAction m = MAP_COPY_SYMBOLS then SetOutputSymbols (osymbols ifst) o2
                else if OutputSymbolsAction m = MAP_CLEAR_SYMBOLS then SetOutputSymbols None o2
                else o2);
          iprops = fst_Properties ifst (kCopyProperties K)
      in if start ifst = kNoStateId
         then (if iprops AND kError K \<noteq> 0 then SetProperties K (kError K) (kError K) o3 else o3)
         else
           let final_action = FinalAction m;
               o4 = foldl (\<lambda>f s. AddState f) o3 (fst_StateIds ifst);
               os = (if final_action = MAP_REQUIRE_SUPERFINAL then add_superfinal o4
                     else (o4, kNoStateId));
               os1 = foldl (ArcMap_copy_state K m final_action ifst) os (fst_StateIds ifst);
               oprops = fst_Properties (fst os1) (kFstProperties K)
           in SetProperties K (Properties m iprops OR oprops) (kFstProperties K) (fst os1))"


section \<open>The lazy wrapper: \<^verbatim>\<open>ArcMapFstImpl\<close>\<close>

text \<open>
  Modelled from the spec: the cache of the wrapper (\<^verbatim>\<open>CacheBaseImpl\<close>, \<^verbatim>\<open>CacheOptions\<close> and
  the cache stores of cache.h) is not under src/. A cache entry holds a final weight, an
  arc list and the two flags "has final" and "has arcs"; a fresh entry has final weight
  \<^verbatim>\<open>Zero()\<close>, no arcs and no flag; the start state is cached apart from the entries.
  The store never drops the entry of the state it is asked to change. The comment at
  \<^verbatim>\<open>ArcMapFstOptions\<close> in arc-map.h says that the default options, \<^verbatim>\<open>CacheOptions(true, 0)\<close>,
  "do no caching", and intersect.h that with \<^verbatim>\<open>gc_limit = 0\<close> only the last state is cached:
  under \<open>gc\<close> with \<open>gc_limit = 0\<close> the store keeps the entry of the state it was asked to
  change last and drops the others. Under any other options the source does not say which
  entries are dropped: the collector of the store, a parameter, decides.
\<close>

record 'w CacheState =
  cs_final :: 'w
  cs_arcs :: "'w arc list"
  cs_has_final :: bool
  cs_has_arcs :: bool

definition ArcMapFstOptions :: CacheOptions where
  "ArcMapFstOptions = \<lparr>gc = True, gc_limit = 0\<rparr>"

definition no_caching :: "CacheOptions \<Rightarrow> bool" where
  "no_caching opts = (gc opts \<and> gc_limit opts = 0)"

definition new_CacheState :: "'w::zero CacheState" where
  "new_CacheState = \<lparr>cs_final = Weight_Zero, cs_arcs = [], cs_has_final = False, cs_has_arcs = False\<rparr>"

definition pruned_store ::
  "(CacheOptions \<Rightarrow> (int \<Rightarrow> bool) \<Rightarrow> int \<Rightarrow> int \<Rightarrow> bool) \<Rightarrow> CacheOptions \<Rightarrow>
   (int \<rightharpoonup> 'e) \<Rightarrow> int \<Rightarrow> (int \<rightharpoonup> 'e)" where
  "pruned_store collect opts c s =
     (\<lambda>t. if t = s then c t
          else if no_caching opts \<or> collect opts (\<lambda>u. c u \<noteq> None) s t then None
          else c t)"

definition entry_of :: "(int \<rightharpoonup> 'w::zero CacheState) \<Rightarrow> int \<Rightarrow> 'w CacheState" where
  "entry_of c s = (case c s of Some e \<Rightarrow> e | None \<Rightarrow> new_CacheState)"

text \<open>
  The state of an \<^verbatim>\<open>ArcMapFstImpl\<close>: the members of the class (the ownership flag
  \<^verbatim>\<open>own_mapper_\<close> apart), the cache and the property mask and symbol tables of its base
  classes, and the log of the arcs the mapper was called on. A member \<^verbatim>\<open>x_\<close> of the class
  is the field \<open>impl_x\<close>.
\<close>

record ('a, 'b, 'st) ArcMapFstImpl =
  impl_fst :: "('a, 'st) wfst"
  impl_mapper :: "('a, 'b) ArcMapper"
  impl_final_action :: MapFinalAction
  impl_superfinal :: int
  impl_nstates :: int
  cache_options :: CacheOptions
  cache_gc :: "CacheOptions \<Rightarrow> (int \<Rightarrow> bool) \<Rightarrow> int \<Rightarrow> int \<Rightarrow> bool"
  cache_start :: "int option"
  cache_store :: "int \<rightharpoonup> 'b CacheState"
  impl_properties :: "64 word"
  impl_isymbols :: "'st option"
  impl_osymbols :: "'st option"
  mapper_calls :: "'a arc list"

text \<open>The cache operations the wrapper uses.\<close>

definition HasStart :: "('a, 'b, 'st) ArcMapFstImpl \<Rightarrow> bool" where
  "HasStart w = (cache_start w \<noteq> None)"

definition HasFinal :: "('a, 'b, 'st) ArcMapFstImpl \<Rightarrow> int \<Rightarrow> bool" where
  "HasFinal w s = (case cache_store w s of Some e \<Rightarrow> cs_has_final e | None \<Rightarrow> False)"

definition HasArcs :: "('a, 'b, 'st) ArcMapFstImpl \<Rightarrow> int \<Rightarrow> bool" where
  "HasArcs w s = (case cache_store w s of Some e \<Rightarrow> cs_has_arcs e | None \<Rightarrow> False)"

definition mutate_state ::
  "('a, 'b::zero, 'st) ArcMapFstImpl \<Rightarrow> int \<Rightarrow> ('b CacheState \<Rightarrow> 'b CacheState) \<Rightarrow>
   ('a, 'b, 'st) ArcMapFstImpl" where
  "mutate_state w s g =
     w\<lparr>cache_store :=
         (pruned_store (cache_gc w) (cache_options w) (cache_store w) s)
           (s \<mapsto> g (entry_of (cache_store w) s))\<rparr>"

text \<open>Whether the store drops the entry of \<open>t\<close> when the entry of \<open>s\<close> is changed.\<close>

definition drops :: "('a, 'b, 'st) ArcMapFstImpl \<Rightarrow> int \<Rightarrow> int \<Rightarrow> bool" where
  "drops w s t =
     (no_caching (cache_options w) \<or>
      cache_gc w (cache_options w) (\<lambda>u. cache_store w u \<noteq> None) s t)"

definition Cache_SetFinal ::
  "('a, 'b::zero, 'st) ArcMapFstImpl \<Rightarrow> int \<Rightarrow> 'b \<Rightarrow> ('a, 'b, 'st) ArcMapFstImpl" where
  "Cache_SetFinal w s wt = mutate_state w s (\<lambda>e. e\<lparr>cs_final := wt, cs_has_final := True\<rparr>)"

definition PushArc ::
  "('a, 'b::zero, 'st) ArcMapFstImpl \<Rightarrow> int \<Rightarrow> 'b arc \<Rightarrow> ('a, 'b, 'st) ArcMapFstImpl" where
  "PushArc w s a = mutate_state w s (\<lambda>e. e\<lparr>cs_arcs := cs_arcs e @ [a]\<rparr>)"

definition SetArcs :: "('a, 'b::zero, 'st) ArcMapFstImpl \<Rightarrow> int \<Rightarrow> ('a, 'b, 'st) ArcMapFstImpl" where
  "SetArcs w s = mutate_state w s (\<lambda>e. e\<lparr>cs_has_arcs := True\<rparr>)"

definition Cache_Final :: "('a, 'b::zero, 'st) ArcMapFstImpl \<Rightarrow> int \<Rightarrow> 'b" where
  "Cache_Final w s = cs_final (entry_of (cache_store w) s)"

definition Cache_Arcs :: "('a, 'b::zero, 'st) ArcMapFstImpl \<Rightarrow> int \<Rightarrow> 'b arc list" where
  "Cache_Arcs w s = cs_arcs (entry_of (cache_store w) s)"

definition SetStart_cache :: "('a, 'b, 'st) ArcMapFstImpl \<Rightarrow> int \<Rightarrow> ('a, 'b, 'st) ArcMapFstImpl" where
  "SetStart_cache w s = w\<lparr>cache_start := Some s\<rparr>"

definition Impl_SetProperties ::
  "prop_consts \<Rightarrow> 64 word \<Rightarrow> ('a, 'b, 'st) ArcMapFstImpl \<Rightarrow> ('a, 'b, 'st) ArcMapFstImpl" where
  "Impl_SetProperties K new w = w\<lparr>impl_properties := set_props_all K (impl_properties w) new\<rparr>"

definition Impl_SetProperties_mask ::
  "prop_consts \<Rightarrow> 64 word \<Rightarrow> 64 word \<Rightarrow> ('a, 'b, 'st) ArcMapFstImpl \<Rightarrow> ('a, 'b, 'st) ArcMapFstImpl" where
  "Impl_SetProperties_mask K new msk w = w\<lparr>impl_properties := set_props_mask K (impl_properties w) new msk\<rparr>"

text \<open>\<^verbatim>\<open>(*mapper_)(arc)\<close>: the mapped arc, and the call appended to the log.\<close>

definition call_mapper ::
  "('a, 'b, 'st) ArcMapFstImpl \<Rightarrow> 'a arc \<Rightarrow> 'b arc \<times> ('a, 'b, 'st) ArcMapFstImpl" where
  "call_mapper w a = (map_arc (impl_mapper w) a, w\<lparr>mapper_calls := mapper_calls w @ [a]\<rparr>)"

text \<open>Maps from output state to input state.\<close>

definition FindIState :: "('a, 'b, 'st) ArcMapFstImpl \<Rightarrow> int \<Rightarrow> int" where
  "FindIState w s = (if impl_superfinal w = kNoStateId \<or> s < impl_superfinal w then s else s - 1)"

text \<open>Maps from input state to output state; it also moves \<^verbatim>\<open>nstates_\<close>.\<close>

definition FindOState :: "('a, 'b, 'st) ArcMapFstImpl \<Rightarrow> int \<Rightarrow> int \<times> ('a, 'b, 'st) ArcMapFstImpl" where
  "FindOState w istate =
     (let os = (if \<not> (impl_superfinal w = kNoStateId \<or> istate < impl_superfinal w) then istate + 1 else istate)
      in (os, if os \<ge> impl_nstates w then w\<lparr>impl_nstates := os + 1\<rparr> else w))"

text \<open>
  The constructors: the members as the initialiser list sets them, an empty cache, a
  property mask of \<open>0\<close>, and then \<^verbatim>\<open>Init()\<close>.
\<close>

definition Init :: "prop_consts \<Rightarrow> ('a, 'b, 'st) ArcMapFstImpl \<Rightarrow> ('a, 'b, 'st) ArcMapFstImpl" where
  "Init K w0 =
     (let w1 = (if InputSymbolsAction (impl_mapper w0) = MAP_COPY_SYMBOLS
                then w0\<lparr>impl_isymbols := isymbols (impl_fst w0)\<rparr>
                else if InputSymbolsAction (impl_mapper w0) = MAP_CLEAR_SYMBOLS
                then w0\<lparr>impl_isymbols := None\<rparr> else w0);
          w2 = (if OutputSymbolsAction (impl_mapper w1) = MAP_COPY_SYMBOLS
                then w1\<lparr>impl_osymbols := osymbols (impl_fst w1)\<rparr>
                else if OutputSymbolsAction (impl_mapper w1) = MAP_CLEAR_SYMBOLS
                then w1\<lparr>impl_osymbols := None\<rparr> else w1)
      in if start (impl_fst w2) = kNoStateId
         then Impl_SetProperties K (kNullProperties K) (w2\<lparr>impl_final_action := MAP_NO_SUPERFINAL\<rparr>)
         else
           let w3 = w2\<lparr>impl_final_action := FinalAction (impl_mapper w2)\<rparr>;
               props0 = fst_Properties (impl_fst w3) (kCopyProperties K);
               w4 = Impl_SetProperties K (Properties (impl_mapper w3) props0) w3
           in if impl_final_action w4 = MAP_REQUIRE_SUPERFINAL then w4\<lparr>impl_superfinal := 0\<rparr> else w4)"

definition ArcMapFst ::
  "prop_consts \<Rightarrow> ('a, 'st) wfst \<Rightarrow> ('a, 'b) ArcMapper \<Rightarrow> CacheOptions \<Rightarrow> ('a, 'b, 'st) ArcMapFstImpl" where
  "ArcMapFst K ifst m opts =
     Init K \<lparr>impl_fst = ifst, impl_mapper = m, impl_final_action = MAP_NO_SUPERFINAL,
             impl_superfinal = kNoStateId, impl_nstates = 0, cache_options = opts,
             cache_gc = CacheStore_gc K, cache_start = None, cache_store = Map.empty, impl_properties = 0,
             impl_isymbols = None, impl_osymbols = None, mapper_calls = []\<rparr>"

definition Start :: "('a, 'b, 'st) ArcMapFstImpl \<Rightarrow> int \<times> ('a, 'b, 'st) ArcMapFstImpl" where
  "Start w =
     (let w1 = (if \<not> HasStart w
                then (case FindOState w (start (impl_fst w)) of (os, w') \<Rightarrow> SetStart_cache w' os)
                else w)
      in (case cache_start w1 of Some s \<Rightarrow> s | None \<Rightarrow> kNoStateId, w1))"

definition Final ::
  "prop_consts \<Rightarrow> ('a, 'b::{zero,one}, 'st) ArcMapFstImpl \<Rightarrow> int \<Rightarrow> 'b \<times> ('a, 'b, 'st) ArcMapFstImpl" where
  "Final K w s =
     (let w1 =
        (if \<not> HasFinal w s then
           (case impl_final_action w of
              MAP_NO_SUPERFINAL \<Rightarrow>
                (case call_mapper w (final_pseudo_arc (fst_Final (impl_fst w) (FindIState w s))) of
                   (final_arc, wa) \<Rightarrow>
                     Cache_SetFinal
                       (if nonzero_labels final_arc
                        then Impl_SetProperties_mask K (kError K) (kError K) wa else wa)
                       s (weight final_arc))
            | MAP_ALLOW_SUPERFINAL \<Rightarrow>
                if s = impl_superfinal w then Cache_SetFinal w s Weight_One
                else
                  (case call_mapper w (final_pseudo_arc (fst_Final (impl_fst w) (FindIState w s))) of
                     (final_arc, wa) \<Rightarrow>
                       if ilabel final_arc = 0 \<and> olabel final_arc = 0
                       then Cache_SetFinal wa s (weight final_arc)
                       else Cache_SetFinal wa s Weight_Zero)
            | MAP_REQUIRE_SUPERFINAL \<Rightarrow>
                Cache_SetFinal w s (if s = impl_superfinal w then Weight_One else Weight_Zero))
         else w)
      in (Cache_Final w1 s, w1))"

text \<open>
  The loop of \<^verbatim>\<open>Expand\<close> over the arcs of the input state: the next state is translated
  first, the mapper is applied to the translated arc, and the result is pushed.
\<close>

fun Expand_arcs ::
  "('a, 'b::zero, 'st) ArcMapFstImpl \<Rightarrow> int \<Rightarrow> 'a arc list \<Rightarrow> ('a, 'b, 'st) ArcMapFstImpl" where
  "Expand_arcs w s [] = w"
| "Expand_arcs w s (aarc # rest) =
     (case FindOState w (nextstate aarc) of
        (os, w1) \<Rightarrow>
          (case call_mapper w1 (aarc\<lparr>nextstate := os\<rparr>) of
             (b, w2) \<Rightarrow> Expand_arcs (PushArc w2 s b) s rest))"

text \<open>
  The switch of \<open>Expand\<close> on the final action ("check for superfinal arcs"): the arc to
  the superfinal state, if one is due. Under the allow-superfinal policy it creates the
  superfinal state when there is none yet: \<^verbatim>\<open>superfinal_ = nstates_++\<close>.
\<close>

definition superfinal_step ::
  "('a, 'b::{zero,one}, 'st) ArcMapFstImpl \<Rightarrow> int \<Rightarrow> ('a, 'b, 'st) ArcMapFstImpl" where
  "superfinal_step w2 s =
     (case impl_final_action w2 of
        MAP_NO_SUPERFINAL \<Rightarrow> w2
      | MAP_ALLOW_SUPERFINAL \<Rightarrow>
          (case call_mapper w2 (final_pseudo_arc (fst_Final (impl_fst w2) (FindIState w2 s))) of
             (final_arc, wa) \<Rightarrow>
               if nonzero_labels final_arc then
                 let wb = (if impl_superfinal wa = kNoStateId
                           then wa\<lparr>impl_superfinal := impl_nstates wa, impl_nstates := impl_nstates wa + 1\<rparr>
                           else wa)
                 in PushArc wb s (final_arc\<lparr>nextstate := impl_superfinal wb\<rparr>)
               else wa)
      | MAP_REQUIRE_SUPERFINAL \<Rightarrow>
          (case call_mapper w2 (final_pseudo_arc (fst_Final (impl_fst w2) (FindIState w2 s))) of
             (final_arc, wa) \<Rightarrow>
               if nonzero_labels final_arc \<or> weight final_arc \<noteq> Weight_Zero
               then PushArc wa s
                      (Arc (ilabel final_arc) (olabel final_arc) (weight final_arc)
                         (impl_superfinal wa))
               else wa))"

text \<open>
  \<open>Expand\<close>. The test \<^verbatim>\<open>!HasFinal(s) || Final(s) == Weight::Zero()\<close> calls \<open>Final\<close> only when
  the final weight is cached.
\<close>

definition Expand ::
  "prop_consts \<Rightarrow> ('a, 'b::{zero,one}, 'st) ArcMapFstImpl \<Rightarrow> int \<Rightarrow> ('a, 'b, 'st) ArcMapFstImpl" where
  "Expand K w s =
     (if s = impl_superfinal w then SetArcs w s
      else
        let w1 = Expand_arcs w s (fst_Arcs (impl_fst w) (FindIState w s));
            check = (if \<not> HasFinal w1 s then (True, w1)
                     else (case Final K w1 s of (fw, w1a) \<Rightarrow> (fw = Weight_Zero, w1a)));
            w2 = snd check;
            w3 = (if fst check then superfinal_step w2 s else w2)
        in SetArcs w3 s)"

text \<open>
  Reading the arcs of a state: the constructor of \<^verbatim>\<open>ArcIterator<ArcMapFst>\<close> and
  \<^verbatim>\<open>InitArcIterator\<close> both expand the state unless \<^verbatim>\<open>HasArcs(s)\<close>, and then iterate over the
  cached arcs.
\<close>

definition ArcIterator ::
  "prop_consts \<Rightarrow> ('a, 'b::{zero,one}, 'st) ArcMapFstImpl \<Rightarrow> int \<Rightarrow>
   'b arc list \<times> ('a, 'b, 'st) ArcMapFstImpl" where
  "ArcIterator K w s =
     (let w1 = (if \<not> HasArcs w s then Expand K w s else w) in (Cache_Arcs w1 s, w1))"


section \<open>\<^verbatim>\<open>StateIterator<ArcMapFst>\<close>\<close>

text \<open>
  The iterator holds an iterator \<^verbatim>\<open>siter_\<close> over the input automaton (here its position in
  the state list), the counter \<^verbatim>\<open>s_\<close> and the flag \<^verbatim>\<open>superfinal_\<close>. It reads the wrapper but
  does not change it, so its calls of the mapper are not logged.
\<close>

record ArcMapFst_StateIterator =
  siter_pos :: nat
  si_s :: int
  si_superfinal :: bool

definition siter_Done :: "('a, 'b, 'st) ArcMapFstImpl \<Rightarrow> ArcMapFst_StateIterator \<Rightarrow> bool" where
  "siter_Done w it = (siter_pos it \<ge> length (states (impl_fst w)))"

definition CheckSuperfinal ::
  "('a, 'b, 'st) ArcMapFstImpl \<Rightarrow> ArcMapFst_StateIterator \<Rightarrow> ArcMapFst_StateIterator" where
  "CheckSuperfinal w it =
     (if impl_final_action w \<noteq> MAP_ALLOW_SUPERFINAL \<or> si_superfinal it then it
      else if \<not> siter_Done w it then
        (let final_arc = map_arc (impl_mapper w) (final_pseudo_arc (fst_Final (impl_fst w) (si_s it)))
         in if nonzero_labels final_arc then it\<lparr>si_superfinal := True\<rparr> else it)
      else it)"

definition StateIterator :: "('a, 'b, 'st) ArcMapFstImpl \<Rightarrow> ArcMapFst_StateIterator" where
  "StateIterator w =
     CheckSuperfinal w
       \<lparr>siter_pos = 0, si_s = 0, si_superfinal = (impl_final_action w = MAP_REQUIRE_SUPERFINAL)\<rparr>"

definition SI_Done :: "('a, 'b, 'st) ArcMapFstImpl \<Rightarrow> ArcMapFst_StateIterator \<Rightarrow> bool" where
  "SI_Done w it = (siter_Done w it \<and> \<not> si_superfinal it)"

definition SI_Value :: "ArcMapFst_StateIterator \<Rightarrow> int" where
  "SI_Value it = si_s it"

definition SI_Next ::
  "('a, 'b, 'st) ArcMapFstImpl \<Rightarrow> ArcMapFst_StateIterator \<Rightarrow> ArcMapFst_StateIterator" where
  "SI_Next w it =
     (let it1 = it\<lparr>si_s := si_s it + 1\<rparr>
      in if \<not> siter_Done w it1 then CheckSuperfinal w (it1\<lparr>siter_pos := siter_pos it1 + 1\<rparr>)
         else if si_superfinal it1 then it1\<lparr>si_superfinal := False\<rparr>
         else it1)"

text \<open>
  The state ids of the loop
  \<^verbatim>\<open>for (StateIterator siter(fst); !siter.Done(); siter.Next()) siter.Value()\<close>.
\<close>

function SI_values ::
  "('a, 'b, 'st) ArcMapFstImpl \<Rightarrow> ArcMapFst_StateIterator \<Rightarrow> int list" where
  "SI_values w it = (if SI_Done w it then [] else SI_Value it # SI_values w (SI_Next w it))"
  by pat_completeness auto
termination
  by (relation "measure (\<lambda>(w, it).
        2 * (length (states (impl_fst w)) - siter_pos it) + (if si_superfinal it then 1 else 0))")
     (auto simp: SI_Done_def SI_Next_def siter_Done_def CheckSuperfinal_def Let_def)

declare SI_values.simps [simp del]

section \<open>Reading the lazy wrapper\<close>

text \<open>
  What a client reads when it visits every state and every arc of the wrapper, as the
  claims about the fully expanded wrapper need it: \<^verbatim>\<open>Start()\<close>, and then, for every id
  the state iterator yields, \<^verbatim>\<open>Final(s)\<close> and the arcs of an \<^verbatim>\<open>ArcIterator\<close> on \<open>s\<close>.
\<close>

fun visit_states ::
  "prop_consts \<Rightarrow> ('a, 'b::{zero,one}, 'st) ArcMapFstImpl \<Rightarrow> int list \<Rightarrow>
   'b vstate list \<times> ('a, 'b, 'st) ArcMapFstImpl" where
  "visit_states K w [] = ([], w)"
| "visit_states K w (s # rest) =
     (case Final K w s of
        (fw, w1) \<Rightarrow>
          (case ArcIterator K w1 s of
             (as, w2) \<Rightarrow>
               (case visit_states K w2 rest of
                  (sts, w3) \<Rightarrow> (\<lparr>final = fw, arcs = as\<rparr> # sts, w3))))"

definition expand_all ::
  "prop_consts \<Rightarrow> ('a, 'b::{zero,one}, 'st) ArcMapFstImpl \<Rightarrow> ('b, 'st) wfst" where
  "expand_all K w =
     (case Start w of
        (st, w1) \<Rightarrow>
          (case visit_states K w1 (SI_values w1 (StateIterator w1)) of
             (sts, w2) \<Rightarrow>
               \<lparr>start = st, states = sts, props = impl_properties w2,
                isymbols = impl_isymbols w2, osymbols = impl_osymbols w2\<rparr>))"

text \<open>A client's queries on a wrapper, and the state of the wrapper after a run of them.\<close>

datatype query = Q_Start | Q_Final int | Q_Arcs int

fun run_query ::
  "prop_consts \<Rightarrow> ('a, 'b::{zero,one}, 'st) ArcMapFstImpl \<Rightarrow> query \<Rightarrow> ('a, 'b, 'st) ArcMapFstImpl" where
  "run_query K w Q_Start = snd (Start w)"
| "run_query K w (Q_Final s) = snd (Final K w s)"
| "run_query K w (Q_Arcs s) = snd (ArcIterator K w s)"

definition run_queries ::
  "prop_consts \<Rightarrow> ('a, 'b::{zero,one}, 'st) ArcMapFstImpl \<Rightarrow> query list \<Rightarrow>
   ('a, 'b, 'st) ArcMapFstImpl" where
  "run_queries K w qs = foldl (run_query K) w qs"

section \<open>Union (union.h)\<close>

text \<open>
  The body of the loop over the states of \<open>fst2\<close>: a new state of \<open>fst1\<close> with the final
  weight and the arcs of the state of \<open>fst2\<close>, the next states moved by \<open>numstates1\<close>.
\<close>

definition Union_copy_state ::
  "int \<Rightarrow> ('w::zero, 'st) wfst \<Rightarrow> 'w vstate \<Rightarrow> ('w, 'st) wfst" where
  "Union_copy_state numstates1 fst1 st2 =
     (let s1 = NumStates fst1;
          f = SetFinal s1 (final st2) (AddState fst1)
      in foldl (\<lambda>g a. AddArc s1 (a\<lparr>nextstate := nextstate a + numstates1\<rparr>) g) f (arcs st2))"

text \<open>
  \<^verbatim>\<open>Union(MutableFst<Arc> *fst1, const Fst<Arc> &fst2)\<close>. \<^verbatim>\<open>CompatSymbols\<close> of symbol-table.h
  is not under src/ and is the parameter \<open>CompatSymbols\<close>. \<^verbatim>\<open>Arc(0, 0, nextstate)\<close> is the arc
  constructor without a weight, which gives the weight \<^verbatim>\<open>Weight::One()\<close>.
\<close>

definition Union_fst ::
  "prop_consts \<Rightarrow> ('st option \<Rightarrow> 'st option \<Rightarrow> bool) \<Rightarrow>
   ('w::{zero,one}, 'st) wfst \<Rightarrow> ('w, 'st) wfst \<Rightarrow> ('w, 'st) wfst" where
  "Union_fst K CompatSymbols fst1 fst2 =
     (if \<not> CompatSymbols (isymbols fst1) (isymbols fst2) \<or>
         \<not> CompatSymbols (osymbols fst1) (osymbols fst2)
      then SetProperties K (kError K) (kError K) fst1
      else
        let numstates1 = NumStates fst1;
            initial_acyclic1 = (fst_Properties fst1 (kInitialAcyclic K) = kInitialAcyclic K);
            props1 = fst_Properties fst1 (kFstProperties K);
            props2 = fst_Properties fst2 (kFstProperties K);
            start2 = start fst2
        in if start2 = kNoStateId
           then (if props2 AND kError K \<noteq> 0 then SetProperties K (kError K) (kError K) fst1
                 else fst1)
           else
             let f = foldl (Union_copy_state numstates1) fst1 (states fst2);
                 start1 = start f
             in if start1 = kNoStateId
                then SetProperties K props2 (kCopyProperties K) (SetStart start2 f)
                else
                  let g = (if initial_acyclic1
                           then AddArc start1 (Arc 0 0 Weight_One (start2 + numstates1)) f
                           else
                             let nstart1 = NumStates f
                             in AddArc nstart1 (Arc 0 0 Weight_One (start2 + numstates1))
                                  (AddArc nstart1 (Arc 0 0 Weight_One start1)
                                     (SetStart nstart1 (AddState f))))
                  in SetProperties K (UnionProperties K props1 props2) (kFstProperties K) g)"

section \<open>Intersection (intersect.h)\<close>

text \<open>
  Modelled from the spec: \<^verbatim>\<open>Fst::Properties(kAcceptor, true)\<close>, which computes the acceptor
  bit when asked to, is not under src/. By section 4.7 and the glossary an automaton is
  an acceptor when the input label equals the output label on every arc.
\<close>

definition is_acceptor :: "('w, 'st) wfst \<Rightarrow> bool" where
  "is_acceptor f = list_all (\<lambda>st. list_all (\<lambda>a. ilabel a = olabel a) (arcs st)) (states f)"

definition Properties_kAcceptor_test :: "prop_consts \<Rightarrow> ('w, 'st) wfst \<Rightarrow> 64 word" where
  "Properties_kAcceptor_test K f = (if is_acceptor f then kAcceptor K else 0)"

text \<open>
  The composition the intersection is built on (compose.h) is not under src/:
  \<^verbatim>\<open>CreateBase\<close> is a parameter, and of its result the model keeps the property mask and,
  as an opaque value, the rest.
\<close>

record 'c ComposeFstImpl =
  compose_properties :: "64 word"
  compose_body :: 'c

definition IntersectFst ::
  "prop_consts \<Rightarrow> (('w, 'st) wfst \<Rightarrow> ('w, 'st) wfst \<Rightarrow> CacheOptions \<Rightarrow> 'c ComposeFstImpl) \<Rightarrow>
   ('w, 'st) wfst \<Rightarrow> ('w, 'st) wfst \<Rightarrow> CacheOptions \<Rightarrow> 'c ComposeFstImpl" where
  "IntersectFst K CreateBase fst1 fst2 opts =
     (let base = CreateBase fst1 fst2 opts;
          acceptors = (Properties_kAcceptor_test K fst1 \<noteq> 0 \<and> Properties_kAcceptor_test K fst2 \<noteq> 0)
      in if \<not> acceptors
         then base\<lparr>compose_properties := set_props_all K (compose_properties base) (kError K)\<rparr>
         else base)"


section \<open>Notions used to state the claims\<close>

text \<open>
  The final weight and the arcs the wrapper computes for an output state from the members
  it holds: the values \<^verbatim>\<open>Final\<close> and \<^verbatim>\<open>Expand\<close> store for a state that is not cached, for
  a wrapper whose superfinal state (if any) has its index already.
\<close>

definition mapped_final_arc :: "('a, 'b, 'st) ArcMapFstImpl \<Rightarrow> int \<Rightarrow> 'b arc" where
  "mapped_final_arc w s =
     map_arc (impl_mapper w) (final_pseudo_arc (fst_Final (impl_fst w) (FindIState w s)))"

definition lazy_final :: "('a, 'b::{zero,one}, 'st) ArcMapFstImpl \<Rightarrow> int \<Rightarrow> 'b" where
  "lazy_final w s =
     (case impl_final_action w of
        MAP_NO_SUPERFINAL \<Rightarrow> weight (mapped_final_arc w s)
      | MAP_ALLOW_SUPERFINAL \<Rightarrow>
          if s = impl_superfinal w then Weight_One
          else if nonzero_labels (mapped_final_arc w s) then Weight_Zero
          else weight (mapped_final_arc w s)
      | MAP_REQUIRE_SUPERFINAL \<Rightarrow> if s = impl_superfinal w then Weight_One else Weight_Zero)"

definition lazy_arcs :: "('a, 'b::{zero,one}, 'st) ArcMapFstImpl \<Rightarrow> int \<Rightarrow> 'b arc list" where
  "lazy_arcs w s =
     (if s = impl_superfinal w then []
      else
        map (\<lambda>a. map_arc (impl_mapper w) (a\<lparr>nextstate := fst (FindOState w (nextstate a))\<rparr>))
          (fst_Arcs (impl_fst w) (FindIState w s)) @
        (case impl_final_action w of
           MAP_NO_SUPERFINAL \<Rightarrow> []
         | MAP_ALLOW_SUPERFINAL \<Rightarrow>
             if nonzero_labels (mapped_final_arc w s)
             then [(mapped_final_arc w s)\<lparr>nextstate := impl_superfinal w\<rparr>] else []
         | MAP_REQUIRE_SUPERFINAL \<Rightarrow>
             if nonzero_labels (mapped_final_arc w s) \<or> weight (mapped_final_arc w s) \<noteq> Weight_Zero
             then [Arc (ilabel (mapped_final_arc w s)) (olabel (mapped_final_arc w s))
                     (weight (mapped_final_arc w s)) (impl_superfinal w)]
             else []))"

text \<open>
  The cache is coherent when every cached final weight and every cached arc list is the
  one the wrapper computes, and an entry whose arcs are not complete has none yet.
\<close>

definition coherent :: "('a, 'b::{zero,one}, 'st) ArcMapFstImpl \<Rightarrow> bool" where
  "coherent w =
     (\<forall>s e. cache_store w s = Some e \<longrightarrow>
        (cs_has_final e \<longrightarrow> cs_final e = lazy_final w s) \<and>
        (cs_has_arcs e \<longrightarrow> cs_arcs e = lazy_arcs w s) \<and>
        (\<not> cs_has_arcs e \<longrightarrow> cs_arcs e = []))"

text \<open>No final weight of the automaton is mapped to a pseudo-arc with a label.\<close>

definition no_labelled_final :: "('a, 'st) wfst \<Rightarrow> ('a, 'b) ArcMapper \<Rightarrow> bool" where
  "no_labelled_final f m =
     list_all (\<lambda>st. \<not> nonzero_labels (map_arc m (final_pseudo_arc (final st)))) (states f)"

text \<open>
  The wrapper never moves its superfinal state: the policy is not allow-superfinal, or
  it is and no final weight needs a superfinal state.
\<close>

definition settled :: "('a, 'b, 'st) ArcMapFstImpl \<Rightarrow> bool" where
  "settled w =
     (impl_final_action w = MAP_ALLOW_SUPERFINAL \<longrightarrow>
        impl_superfinal w = kNoStateId \<and> no_labelled_final (impl_fst w) (impl_mapper w))"

text \<open>
  The state the eager algorithms make of a state of the input, given the index of the
  superfinal state: the mapped arcs, then the arc to the superfinal state if the policy
  asks for one, and the final weight the policy leaves.
\<close>

definition mapped_final :: "('a, 'b) ArcMapper \<Rightarrow> 'a vstate \<Rightarrow> 'b arc" where
  "mapped_final m st = map_arc m (final_pseudo_arc (final st))"

definition eager_state ::
  "('a, 'b::{zero,one}) ArcMapper \<Rightarrow> MapFinalAction \<Rightarrow> int \<Rightarrow> 'a vstate \<Rightarrow> 'b vstate" where
  "eager_state m fa superfinal st =
     \<lparr>final =
        (case fa of
           MAP_NO_SUPERFINAL \<Rightarrow> weight (mapped_final m st)
         | MAP_ALLOW_SUPERFINAL \<Rightarrow>
             if nonzero_labels (mapped_final m st) then Weight_Zero else weight (mapped_final m st)
         | MAP_REQUIRE_SUPERFINAL \<Rightarrow> Weight_Zero),
      arcs =
        map (map_arc m) (arcs st) @
        (case fa of
           MAP_NO_SUPERFINAL \<Rightarrow> []
         | MAP_ALLOW_SUPERFINAL \<Rightarrow>
             if nonzero_labels (mapped_final m st)
             then [(mapped_final m st)\<lparr>nextstate := superfinal\<rparr>] else []
         | MAP_REQUIRE_SUPERFINAL \<Rightarrow>
             if nonzero_labels (mapped_final m st) \<or> weight (mapped_final m st) \<noteq> Weight_Zero
             then [Arc (ilabel (mapped_final m st)) (olabel (mapped_final m st))
                     (weight (mapped_final m st)) superfinal]
             else [])\<rparr>"

definition superfinal_state :: "'w::{zero,one} vstate" where
  "superfinal_state = \<lparr>final = Weight_One, arcs = []\<rparr>"

text \<open>
  Two states of one wrapper that agree on the members which determine what the wrapper
  computes.
\<close>

definition same_view :: "('a, 'b, 'st) ArcMapFstImpl \<Rightarrow> ('a, 'b, 'st) ArcMapFstImpl \<Rightarrow> bool" where
  "same_view w' w =
     (impl_fst w' = impl_fst w \<and> impl_mapper w' = impl_mapper w \<and>
      impl_final_action w' = impl_final_action w \<and> impl_superfinal w' = impl_superfinal w \<and>
      cache_options w' = cache_options w)"

text \<open>Expanding the state does not create the superfinal state.\<close>

definition quiet :: "('a, 'b, 'st) ArcMapFstImpl \<Rightarrow> int \<Rightarrow> bool" where
  "quiet w s =
     (impl_final_action w = MAP_ALLOW_SUPERFINAL \<longrightarrow> \<not> nonzero_labels (mapped_final_arc w s))"

text \<open>A state id of the input automaton.\<close>

definition valid_state :: "('w, 'st) wfst \<Rightarrow> int \<Rightarrow> bool" where
  "valid_state f s = (0 \<le> s \<and> s < NumStates f)"

text \<open>
  A well-formed automaton: the start state is a state or \<^verbatim>\<open>kNoStateId\<close>, and every arc
  leads to a state.
\<close>

definition wellformed :: "('w, 'st) wfst \<Rightarrow> bool" where
  "wellformed f =
     ((start f = kNoStateId \<or> valid_state f (start f)) \<and>
      list_all (\<lambda>st. list_all (\<lambda>a. valid_state f (nextstate a)) (arcs st)) (states f))"

text \<open>The state of \<open>fst2\<close> as \<^verbatim>\<open>Union\<close> copies it: the next states moved by \<open>n\<close>.\<close>

definition shift_state :: "int \<Rightarrow> 'w vstate \<Rightarrow> 'w vstate" where
  "shift_state n st = st\<lparr>arcs := map (\<lambda>a. a\<lparr>nextstate := nextstate a + n\<rparr>) (arcs st)\<rparr>"

text \<open>
  A mapper that copies the next state of a regular arc and whose result does not depend
  on it otherwise, as every mapper of arc-map.h does.
\<close>

definition nextstate_invariant :: "('a, 'b) ArcMapper \<Rightarrow> bool" where
  "nextstate_invariant m =
     (\<forall>a k. 0 \<le> nextstate a \<and> 0 \<le> k \<longrightarrow>
        map_arc m (a\<lparr>nextstate := k\<rparr>) = (map_arc m a)\<lparr>nextstate := k\<rparr>)"

section \<open>Example values\<close>

text \<open>
  Values for the concrete instances below. The masks are arbitrary choices of distinct
  bits; \<open>UnionProperties\<close> is bitwise conjunction here, and the collector of the cache store
  drops nothing.
\<close>

definition example_consts :: prop_consts where
  "example_consts =
     \<lparr>kError = 0x4, kFstProperties = 0x0000ffffffff0007, kCopyProperties = 0x0000ffffffff0004,
      kNullProperties = 0x0000956a5a950000, kInitialAcyclic = 0x2000000000, kAcceptor = 0x10000,
      UnionProperties = (\<lambda>p1 p2. p1 AND p2),
      CacheStore_gc = (\<lambda>opts cached s t. False)\<rparr>"

text \<open>\<^verbatim>\<open>IdentityArcMapper\<close> of arc-map.h.\<close>

definition IdentityArcMapper :: "('w, 'w) ArcMapper" where
  "IdentityArcMapper =
     \<lparr>map_arc = (\<lambda>a. a), FinalAction = MAP_NO_SUPERFINAL,
      InputSymbolsAction = MAP_COPY_SYMBOLS, OutputSymbolsAction = MAP_COPY_SYMBOLS,
      Properties = (\<lambda>p. p)\<rparr>"

text \<open>
  \<^verbatim>\<open>SuperFinalMapper\<close> of arc-map.h; the property masks its \<^verbatim>\<open>Properties\<close> uses are
  parameters.
\<close>

definition SuperFinalMapper :: "64 word \<Rightarrow> 64 word \<Rightarrow> int \<Rightarrow> ('w::zero, 'w) ArcMapper" where
  "SuperFinalMapper kAddSuperFinalProperties kLabelInvariantProperties final_label =
     \<lparr>map_arc = (\<lambda>a. if nextstate a = kNoStateId \<and> weight a \<noteq> Weight_Zero
                      then Arc final_label final_label (weight a) kNoStateId else a),
      FinalAction = MAP_REQUIRE_SUPERFINAL,
      InputSymbolsAction = MAP_COPY_SYMBOLS, OutputSymbolsAction = MAP_COPY_SYMBOLS,
      Properties = (\<lambda>p. if final_label = 0 then p AND kAddSuperFinalProperties
                        else p AND kAddSuperFinalProperties AND kLabelInvariantProperties)\<rparr>"

text \<open>
  An automaton without states and without symbol tables. In the examples a symbol table
  is a number, and two tables are compatible when one of them is absent or they are equal.
\<close>

definition example_compat :: "nat option \<Rightarrow> nat option \<Rightarrow> bool" where
  "example_compat t1 t2 = (t1 = None \<or> t2 = None \<or> t1 = t2)"


definition empty_fst :: "('w, 'st) wfst" where
  "empty_fst = \<lparr>start = kNoStateId, states = [], props = 0, isymbols = None, osymbols = None\<rparr>"

text \<open>
  Scenario A of the spec: one state, start and final with weight \<^verbatim>\<open>One()\<close>, and one
  self-loop with the labels 1 and 1.
\<close>

definition loop_fst :: "(int, nat) wfst" where
  "loop_fst = empty_fst\<lparr>start := 0, states := [\<lparr>final = 1, arcs = [Arc 1 1 1 0]\<rparr>]\<rparr>"

text \<open>Two states: an arc from the start state 0 to the final state 1.\<close>

definition line_fst :: "(int, nat) wfst" where
  "line_fst = empty_fst\<lparr>start := 0,
     states := [\<lparr>final = 0, arcs = [Arc 1 2 1 1]\<rparr>, \<lparr>final = 1, arcs = []\<rparr>]\<rparr>"

text \<open>One final state and no start state.\<close>

definition startless_fst :: "(int, nat) wfst" where
  "startless_fst = empty_fst\<lparr>states := [\<lparr>final = 1, arcs = []\<rparr>]\<rparr>"




text \<open>Two automata with symbol tables that are not compatible, and a composition stub.\<close>

definition table1_fst :: "(int, nat) wfst" where
  "table1_fst = loop_fst\<lparr>isymbols := Some 1, osymbols := Some 1\<rparr>"

definition table2_fst :: "(int, nat) wfst" where
  "table2_fst = line_fst\<lparr>isymbols := Some 2, osymbols := Some 1\<rparr>"

definition example_CreateBase ::
  "(int, nat) wfst \<Rightarrow> (int, nat) wfst \<Rightarrow> CacheOptions \<Rightarrow> unit ComposeFstImpl" where
  "example_CreateBase f1 f2 opts = \<lparr>compose_properties = 0x10000, compose_body = ()\<rparr>"

text \<open>
  A wrapper with the default options over the two-state example, and its states after
  the arcs of state 0, then of state 1, then of state 0 again have been read.
\<close>

definition default_wrapper :: "(int, int, nat) ArcMapFstImpl" where
  "default_wrapper = ArcMapFst example_consts line_fst IdentityArcMapper ArcMapFstOptions"

definition read_0 :: "(int, int, nat) ArcMapFstImpl" where
  "read_0 = snd (ArcIterator example_consts default_wrapper 0)"

definition read_0_1 :: "(int, int, nat) ArcMapFstImpl" where
  "read_0_1 = snd (ArcIterator example_consts read_0 1)"

definition read_0_1_0 :: "(int, int, nat) ArcMapFstImpl" where
  "read_0_1_0 = snd (ArcIterator example_consts read_0_1 0)"

text \<open>
  The shape the claim on the require-superfinal policy gives the result \<open>r\<close> of mapping
  \<open>f\<close>: one state more than \<open>f\<close>, the last one, with final weight \<^verbatim>\<open>One()\<close> and no arcs; it is
  the only state with final weight \<^verbatim>\<open>One()\<close>; every other state has final weight \<^verbatim>\<open>Zero()\<close> and
  the mapped arcs of the state of \<open>f\<close>, followed by one arc into the last state unless the
  mapped pseudo-arc has epsilon labels and weight \<^verbatim>\<open>Zero()\<close>.
\<close>

definition require_superfinal_shape ::
  "('a, 'b::{zero,one}) ArcMapper \<Rightarrow> ('a, 'st) wfst \<Rightarrow> ('b, 'st) wfst \<Rightarrow> bool" where
  "require_superfinal_shape m f r =
     (length (states r) = length (states f) + 1 \<and>
      final (states r ! length (states f)) = Weight_One \<and>
      arcs (states r ! length (states f)) = [] \<and>
      length (filter (\<lambda>st. final st = Weight_One) (states r)) = 1 \<and>
      (\<forall>i < length (states f).
         final (states r ! i) = Weight_Zero \<and>
         arcs (states r ! i) =
           map (map_arc m) (arcs (states f ! i)) @
           (if ilabel (mapped_final m (states f ! i)) = 0 \<and> olabel (mapped_final m (states f ! i)) = 0 \<and>
               weight (mapped_final m (states f ! i)) = Weight_Zero
            then []
            else [Arc (ilabel (mapped_final m (states f ! i))) (olabel (mapped_final m (states f ! i)))
                    (weight (mapped_final m (states f ! i))) (NumStates f)])))"

text \<open>One state, the start state, not final, with a self-loop.\<close>

definition nonfinal_fst :: "(int, nat) wfst" where
  "nonfinal_fst = empty_fst\<lparr>start := 0, states := [\<lparr>final = 0, arcs = [Arc 1 1 1 0]\<rparr>]\<rparr>"

text \<open>
  Every labelled pseudo-arc whose weight is in the cache as a final weight has been
  reported: the wrapper carries the error bit.
\<close>

definition error_recorded :: "prop_consts \<Rightarrow> ('a, 'b, 'st) ArcMapFstImpl \<Rightarrow> bool" where
  "error_recorded K w =
     (\<forall>t. HasFinal w t \<and> nonzero_labels (mapped_final_arc w t) \<longrightarrow>
        has_error K (impl_properties w))"

text \<open>A mapper without superfinal state that puts the input label 1 on every arc.\<close>

definition labelling_mapper :: "(int, int) ArcMapper" where
  "labelling_mapper = IdentityArcMapper\<lparr>map_arc := (\<lambda>a. a\<lparr>ilabel := 1\<rparr>)\<rparr>"

text \<open>
  The renumbering between the two results under the require-superfinal policy, for an
  input with \<open>n\<close> states: the eager algorithm has the superfinal state at index \<open>n\<close> and the
  copy of state \<open>i\<close> at \<open>i\<close>, the wrapper has the superfinal state at index 0 and the copy
  of state \<open>i\<close> at \<open>i + 1\<close>.
\<close>

definition to_lazy_id :: "int \<Rightarrow> int \<Rightarrow> int" where
  "to_lazy_id n k = (if k = n then 0 else k + 1)"

definition to_lazy_state :: "int \<Rightarrow> 'w vstate \<Rightarrow> 'w vstate" where
  "to_lazy_state n st = st\<lparr>arcs := map (\<lambda>a. a\<lparr>nextstate := to_lazy_id n (nextstate a)\<rparr>) (arcs st)\<rparr>"

text \<open>A query that is about the state \<open>s\<close> or about the start state.\<close>

fun about :: "int \<Rightarrow> query \<Rightarrow> bool" where
  "about s Q_Start = True"
| "about s (Q_Final t) = (t = s)"
| "about s (Q_Arcs t) = (t = s)"





section \<open>Basic facts about the mutators and the cache\<close>

lemma AddState_fields:
  "start (AddState f) = start f" "props (AddState f) = props f"
  "isymbols (AddState f) = isymbols f" "osymbols (AddState f) = osymbols f"
  "states (AddState f) = states f @ [new_state]"
  by (simp_all add: AddState_def)

lemma SetFinal_fields:
  "start (SetFinal s w f) = start f" "props (SetFinal s w f) = props f"
  "isymbols (SetFinal s w f) = isymbols f" "osymbols (SetFinal s w f) = osymbols f"
  "length (states (SetFinal s w f)) = length (states f)"
  by (simp_all add: SetFinal_def)

lemma AddArc_fields:
  "start (AddArc s a f) = start f" "props (AddArc s a f) = props f"
  "isymbols (AddArc s a f) = isymbols f" "osymbols (AddArc s a f) = osymbols f"
  "length (states (AddArc s a f)) = length (states f)"
  by (simp_all add: AddArc_def)

lemma SetProperties_fields:
  "start (SetProperties K new msk f) = start f" "states (SetProperties K new msk f) = states f"
  "isymbols (SetProperties K new msk f) = isymbols f"
  "osymbols (SetProperties K new msk f) = osymbols f"
  "props (SetProperties K new msk f) = set_props_mask K (props f) new msk"
  by (simp_all add: SetProperties_def)

lemma SetStart_fields:
  "start (SetStart s f) = s" "states (SetStart s f) = states f" "props (SetStart s f) = props f"
  "isymbols (SetStart s f) = isymbols f" "osymbols (SetStart s f) = osymbols f"
  by (simp_all add: SetStart_def)

lemma NumStates_simps:
  "NumStates (AddState f) = NumStates f + 1" "NumStates (SetFinal s w f) = NumStates f"
  "NumStates (AddArc s a f) = NumStates f" "NumStates (SetStart s f) = NumStates f"
  "NumStates (SetProperties K new msk f) = NumStates f"
  by (simp_all add: NumStates_def AddState_fields SetFinal_fields AddArc_fields SetStart_fields
      SetProperties_fields)

text \<open>The error bit is sticky under both forms of \<^verbatim>\<open>SetProperties\<close>.\<close>

lemma set_props_mask_sets_error: "has_error K (set_props_mask K p (kError K) (kError K))"
  by (auto simp: has_error_def set_props_mask_def bit_eq_iff bit_simps)

lemma set_props_mask_keeps_error: "has_error K p \<Longrightarrow> has_error K (set_props_mask K p new msk)"
  unfolding has_error_def set_props_mask_def
  by (auto simp: bit_eq_iff bit_simps)

lemma set_props_all_sets_error: "has_error K (set_props_all K p (kError K))"
  by (auto simp: has_error_def set_props_all_def bit_eq_iff bit_simps)



lemma mutate_state_fields:
  "impl_fst (mutate_state w s g) = impl_fst w"
  "impl_mapper (mutate_state w s g) = impl_mapper w"
  "impl_final_action (mutate_state w s g) = impl_final_action w"
  "impl_superfinal (mutate_state w s g) = impl_superfinal w"
  "impl_nstates (mutate_state w s g) = impl_nstates w"
  "cache_options (mutate_state w s g) = cache_options w"
  "cache_start (mutate_state w s g) = cache_start w"
  "impl_properties (mutate_state w s g) = impl_properties w"
  "impl_isymbols (mutate_state w s g) = impl_isymbols w"
  "impl_osymbols (mutate_state w s g) = impl_osymbols w"
  "mapper_calls (mutate_state w s g) = mapper_calls w"
  by (simp_all add: mutate_state_def)

lemma mutate_state_store:
  "cache_store (mutate_state w s g) t =
     (if t = s then Some (g (entry_of (cache_store w) s))
      else if drops w s t then None else cache_store w t)"
  by (simp add: mutate_state_def pruned_store_def drops_def)

lemma call_mapper_simps:
  "fst (call_mapper w a) = map_arc (impl_mapper w) a"
  "snd (call_mapper w a) = w\<lparr>mapper_calls := mapper_calls w @ [a]\<rparr>"
  by (simp_all add: call_mapper_def)

lemma FindOState_fst:
  "fst (FindOState w i) =
     (if impl_superfinal w = kNoStateId \<or> i < impl_superfinal w then i else i + 1)"
  by (simp add: FindOState_def Let_def)

lemma FindOState_snd:
  "snd (FindOState w i) =
     (if fst (FindOState w i) \<ge> impl_nstates w then w\<lparr>impl_nstates := fst (FindOState w i) + 1\<rparr> else w)"
  by (simp add: FindOState_def Let_def)

lemma FindOState_fields:
  "impl_fst (snd (FindOState w i)) = impl_fst w"
  "impl_mapper (snd (FindOState w i)) = impl_mapper w"
  "impl_final_action (snd (FindOState w i)) = impl_final_action w"
  "impl_superfinal (snd (FindOState w i)) = impl_superfinal w"
  "cache_options (snd (FindOState w i)) = cache_options w"
  "cache_start (snd (FindOState w i)) = cache_start w"
  "cache_store (snd (FindOState w i)) = cache_store w"
  "impl_properties (snd (FindOState w i)) = impl_properties w"
  "impl_isymbols (snd (FindOState w i)) = impl_isymbols w"
  "impl_osymbols (snd (FindOState w i)) = impl_osymbols w"
  "mapper_calls (snd (FindOState w i)) = mapper_calls w"
  by (simp_all add: FindOState_def Let_def)






lemma entry_of_mutate_state:
  "entry_of (cache_store (mutate_state w s g)) s = g (entry_of (cache_store w) s)"
  by (simp add: entry_of_def mutate_state_store)

lemma Expand_arcs_fields:
  "impl_fst (Expand_arcs w s as) = impl_fst w"
  "impl_mapper (Expand_arcs w s as) = impl_mapper w"
  "impl_final_action (Expand_arcs w s as) = impl_final_action w"
  "impl_superfinal (Expand_arcs w s as) = impl_superfinal w"
  "cache_options (Expand_arcs w s as) = cache_options w"
  "cache_start (Expand_arcs w s as) = cache_start w"
  "impl_properties (Expand_arcs w s as) = impl_properties w"
  "impl_isymbols (Expand_arcs w s as) = impl_isymbols w"
  "impl_osymbols (Expand_arcs w s as) = impl_osymbols w"
  by (induction as arbitrary: w;
      simp add: case_prod_beta call_mapper_simps PushArc_def mutate_state_fields FindOState_fields)+


text \<open>The arc a regular arc of the input becomes in the wrapper.\<close>

lemma Expand_arcs_entry:
  "entry_of (cache_store (Expand_arcs w s as)) s =
     (entry_of (cache_store w) s)\<lparr>cs_arcs := cs_arcs (entry_of (cache_store w) s) @
        map (\<lambda>a. map_arc (impl_mapper w) (a\<lparr>nextstate := fst (FindOState w (nextstate a))\<rparr>)) as\<rparr>"
proof (induction as arbitrary: w)
  case Nil
  show ?case by simp
next
  case (Cons a as)
  show ?case
    by (simp add: case_prod_beta call_mapper_simps PushArc_def mutate_state_fields FindOState_fields
        Cons.IH entry_of_mutate_state FindOState_fst)
qed

lemma Expand_arcs_others:
  "t \<noteq> s \<Longrightarrow> cache_store (Expand_arcs w s as) t = None \<or>
     cache_store (Expand_arcs w s as) t = cache_store w t"
proof (induction as arbitrary: w)
  case Nil
  show ?case by simp
next
  case (Cons a as)
  let ?w' = "PushArc (snd (call_mapper (snd (FindOState w (nextstate a)))
        (a\<lparr>nextstate := fst (FindOState w (nextstate a))\<rparr>))) s
        (fst (call_mapper (snd (FindOState w (nextstate a)))
        (a\<lparr>nextstate := fst (FindOState w (nextstate a))\<rparr>)))"
  have step: "cache_store ?w' t = None \<or> cache_store ?w' t = cache_store w t"
    using Cons.prems
    by (simp add: PushArc_def mutate_state_store call_mapper_simps FindOState_fields)
  have "Expand_arcs w s (a # as) = Expand_arcs ?w' s as"
    by (simp add: case_prod_beta)
  with Cons.IH [OF Cons.prems, of ?w'] step show ?case by auto
qed

lemma Expand_arcs_calls:
  "mapper_calls (Expand_arcs w s as) =
     mapper_calls w @ map (\<lambda>a. a\<lparr>nextstate := fst (FindOState w (nextstate a))\<rparr>) as"
  by (induction as arbitrary: w)
     (simp_all add: case_prod_beta call_mapper_simps PushArc_def mutate_state_fields
        FindOState_fields FindOState_fst)

lemma HasFinal_entry: "HasFinal w s = cs_has_final (entry_of (cache_store w) s)"
  by (simp add: HasFinal_def entry_of_def new_CacheState_def split: option.splits)

lemma HasArcs_entry: "HasArcs w s = cs_has_arcs (entry_of (cache_store w) s)"
  by (simp add: HasArcs_def entry_of_def new_CacheState_def split: option.splits)

lemma Final_cached: "HasFinal w s \<Longrightarrow> Final K w s = (Cache_Final w s, w)"
  by (simp add: Final_def)

lemma Expand_arcs_HasFinal: "HasFinal (Expand_arcs w s as) s = HasFinal w s"
  by (simp add: HasFinal_entry Expand_arcs_entry)

lemma Expand_arcs_Cache_Final: "Cache_Final (Expand_arcs w s as) s = Cache_Final w s"
  by (simp add: Cache_Final_def Expand_arcs_entry)


lemma Init_superfinal:
  "impl_superfinal (ArcMapFst K f m opts) =
     (if start f \<noteq> kNoStateId \<and> FinalAction m = MAP_REQUIRE_SUPERFINAL then 0 else kNoStateId)"
  by (simp add: ArcMapFst_def Init_def Let_def Impl_SetProperties_def)

lemma set_props_mask_error: "set_props_mask K p (kError K) (kError K) = p OR kError K"
  by (auto simp: set_props_mask_def bit_eq_iff bit_simps)

lemma set_props_all_error: "set_props_all K p (kError K) = kError K"
  by (auto simp: set_props_all_def bit_eq_iff bit_simps)

lemma foldl_AddArc_fields:
  "start (foldl (\<lambda>g a. AddArc s (h a) g) f as) = start f"
  "props (foldl (\<lambda>g a. AddArc s (h a) g) f as) = props f"
  "isymbols (foldl (\<lambda>g a. AddArc s (h a) g) f as) = isymbols f"
  "osymbols (foldl (\<lambda>g a. AddArc s (h a) g) f as) = osymbols f"
  "length (states (foldl (\<lambda>g a. AddArc s (h a) g) f as)) = length (states f)"
  by (induction as arbitrary: f; simp add: AddArc_fields)+

lemma AddArc_states:
  "states (AddArc s a f) =
     (states f)[nat s := (states f ! nat s)\<lparr>arcs := arcs (states f ! nat s) @ [a]\<rparr>]"
  by (simp add: AddArc_def)

lemma SetFinal_states:
  "states (SetFinal s w f) = (states f)[nat s := (states f ! nat s)\<lparr>final := w\<rparr>]"
  by (simp add: SetFinal_def)

lemma foldl_AddArc_states:
  "states (foldl (\<lambda>g a. AddArc s (h a) g) f as) =
     (states f)[nat s := (states f ! nat s)\<lparr>arcs := arcs (states f ! nat s) @ map h as\<rparr>]"
proof (induction as arbitrary: f)
  case Nil
  show ?case by simp
next
  case (Cons a as)
  show ?case
    by (cases "nat s < length (states f)") (simp_all add: Cons.IH AddArc_states list_update_beyond)
qed

lemma Union_copy_state_fields:
  "start (Union_copy_state n f st) = start f"
  "props (Union_copy_state n f st) = props f"
  "isymbols (Union_copy_state n f st) = isymbols f"
  "osymbols (Union_copy_state n f st) = osymbols f"
  by (simp_all add: Union_copy_state_def Let_def foldl_AddArc_fields SetFinal_fields AddState_fields)

lemma Union_copy_state_states:
  "states (Union_copy_state n f st) = states f @ [shift_state n st]"
  by (simp add: Union_copy_state_def Let_def foldl_AddArc_states SetFinal_states AddState_fields
      NumStates_def new_state_def shift_state_def)

lemma Union_loop_fields:
  "start (foldl (Union_copy_state n) f sts) = start f"
  "props (foldl (Union_copy_state n) f sts) = props f"
  "isymbols (foldl (Union_copy_state n) f sts) = isymbols f"
  "osymbols (foldl (Union_copy_state n) f sts) = osymbols f"
  by (induction sts arbitrary: f; simp add: Union_copy_state_fields)+

lemma Union_loop_states:
  "states (foldl (Union_copy_state n) f sts) = states f @ map (shift_state n) sts"
  by (induction sts arbitrary: f) (simp_all add: Union_copy_state_states)

text \<open>
  C8. When the input or the output symbol tables of the two automata are not compatible,
  \<open>Union\<close> returns the first automaton with the error bit added to its property mask and
  nothing else changed: the states, their arcs and final weights, the start state and
  the symbol tables are those of the first automaton.
\<close>

theorem Union_incompatible_symbols:
  assumes "\<not> CompatSymbols (isymbols fst1) (isymbols fst2) \<or>
           \<not> CompatSymbols (osymbols fst1) (osymbols fst2)"
  shows "Union_fst K CompatSymbols fst1 fst2 = fst1\<lparr>props := props fst1 OR kError K\<rparr> \<and>
         has_error K (props (Union_fst K CompatSymbols fst1 fst2)) \<and>
         states (Union_fst K CompatSymbols fst1 fst2) = states fst1 \<and>
         start (Union_fst K CompatSymbols fst1 fst2) = start fst1"
proof -
  have U: "Union_fst K CompatSymbols fst1 fst2 = fst1\<lparr>props := props fst1 OR kError K\<rparr>"
    using assms by (auto simp: Union_fst_def SetProperties_def set_props_mask_error)
  have "has_error K (props fst1 OR kError K)"
    by (auto simp: has_error_def bit_eq_iff bit_simps)
  with U show ?thesis by simp
qed

theorem Union_incompatible_symbols_witness:
  "\<not> example_compat (isymbols table1_fst) (isymbols table2_fst) \<and>
   has_error example_consts (props (Union_fst example_consts example_compat table1_fst table2_fst)) \<and>
   states (Union_fst example_consts example_compat table1_fst table2_fst) = states table1_fst \<and>
   start (Union_fst example_consts example_compat table1_fst table2_fst) = start table1_fst"
proof -
  have h: "\<not> example_compat (isymbols table1_fst) (isymbols table2_fst)"
    by code_simp
  from h Union_incompatible_symbols [of example_compat table1_fst table2_fst example_consts]
  show ?thesis by blast
qed

text \<open>
  C7. When one of the two automata has an arc whose input label differs from its output
  label, the constructor of \<open>IntersectFst\<close> returns the composition it built with the
  property mask replaced by the error bit: the error bit is set at construction and the
  constructor returns an automaton.
\<close>

theorem IntersectFst_non_acceptor:
  assumes "(\<exists>st \<in> set (states fst1). \<exists>a \<in> set (arcs st). ilabel a \<noteq> olabel a) \<or>
           (\<exists>st \<in> set (states fst2). \<exists>a \<in> set (arcs st). ilabel a \<noteq> olabel a)"
  shows "IntersectFst K CreateBase fst1 fst2 opts =
           (CreateBase fst1 fst2 opts)\<lparr>compose_properties := kError K\<rparr> \<and>
         has_error K (compose_properties (IntersectFst K CreateBase fst1 fst2 opts)) \<and>
         compose_body (IntersectFst K CreateBase fst1 fst2 opts) =
           compose_body (CreateBase fst1 fst2 opts)"
proof -
  from assms have "\<not> is_acceptor fst1 \<or> \<not> is_acceptor fst2"
    by (auto simp: is_acceptor_def list_all_iff)
  then have I: "IntersectFst K CreateBase fst1 fst2 opts =
           (CreateBase fst1 fst2 opts)\<lparr>compose_properties := kError K\<rparr>"
    by (auto simp: IntersectFst_def Properties_kAcceptor_test_def Let_def set_props_all_error)
  show ?thesis
    by (simp add: I has_error_def)
qed

theorem IntersectFst_non_acceptor_witness:
  "(\<exists>st \<in> set (states line_fst). \<exists>a \<in> set (arcs st). ilabel a \<noteq> olabel a) \<and>
   has_error example_consts
     (compose_properties (IntersectFst example_consts example_CreateBase loop_fst line_fst ArcMapFstOptions))"
proof -
  have h: "\<exists>st \<in> set (states line_fst). \<exists>a \<in> set (arcs st). ilabel a \<noteq> olabel a"
    by (simp add: line_fst_def Arc_def)
  from h IntersectFst_non_acceptor [of loop_fst line_fst example_consts example_CreateBase ArcMapFstOptions]
  show ?thesis by blast
qed

text \<open>
  C4, as amended. For compatible symbol tables: when the second automaton has no start
  state, \<open>Union\<close> adds no state; when it has one, the state count of the result is the sum
  of the two state counts, plus one exactly when the first automaton had a start state
  and its \<open>kInitialAcyclic\<close> bit was not set.
\<close>

theorem Union_NumStates:
  assumes "CompatSymbols (isymbols fst1) (isymbols fst2)"
    and "CompatSymbols (osymbols fst1) (osymbols fst2)"
  shows "NumStates (Union_fst K CompatSymbols fst1 fst2) =
     (if start fst2 = kNoStateId then NumStates fst1
      else NumStates fst1 + NumStates fst2 +
        (if start fst1 \<noteq> kNoStateId \<and>
            fst_Properties fst1 (kInitialAcyclic K) \<noteq> kInitialAcyclic K then 1 else 0))"
  using assms
  by (simp add: Union_fst_def Let_def NumStates_def SetProperties_fields SetStart_fields
      AddArc_fields AddState_fields Union_loop_states Union_loop_fields)

theorem Union_NumStates_witness:
  "example_compat (isymbols loop_fst) (isymbols line_fst) \<and>
   example_compat (osymbols loop_fst) (osymbols line_fst) \<and>
   NumStates (Union_fst example_consts example_compat loop_fst line_fst) =
     (if start line_fst = kNoStateId then NumStates loop_fst
      else NumStates loop_fst + NumStates line_fst +
        (if start loop_fst \<noteq> kNoStateId \<and>
            fst_Properties loop_fst (kInitialAcyclic example_consts) \<noteq>
              kInitialAcyclic example_consts then 1 else 0))"
proof -
  have h1: "example_compat (isymbols loop_fst) (isymbols line_fst)"
    by code_simp
  have h2: "example_compat (osymbols loop_fst) (osymbols line_fst)"
    by code_simp
  from h1 h2 Union_NumStates [of example_compat loop_fst line_fst example_consts]
  show ?thesis by blast
qed

text \<open>
  The claim as stated fails: the first automaton has a start state and no
  \<open>kInitialAcyclic\<close> bit, the second is the empty automaton, and after \<open>Union\<close> the state
  count is the sum of the two counts, without the extra state.
\<close>

theorem Union_NumStates_counterexample:
  "example_compat (isymbols loop_fst) (isymbols (empty_fst :: (int, nat) wfst)) \<and>
   example_compat (osymbols loop_fst) (osymbols (empty_fst :: (int, nat) wfst)) \<and>
   start loop_fst \<noteq> kNoStateId \<and>
   fst_Properties loop_fst (kInitialAcyclic example_consts) \<noteq> kInitialAcyclic example_consts \<and>
   NumStates (Union_fst example_consts example_compat loop_fst empty_fst) \<noteq>
     NumStates loop_fst + NumStates (empty_fst :: (int, nat) wfst) + 1"
  by code_simp

lemma shift_state_0: "shift_state 0 = (\<lambda>st. st)"
  by (rule ext) (simp add: shift_state_def)

text \<open>
  C5, as amended. Let the first automaton have no start state and the symbol tables be
  compatible. When the second automaton has a start state, \<open>Union\<close> appends a copy of its
  states to the states of the first, with the final weights and the arcs, the next states
  moved by the state count the first automaton had; when the first automaton had no
  states, the states and the start state of the result are those of the second. Of the
  property mask, the bits of the copyable set become those of the second automaton, and
  an error bit of the first automaton stays. When the second automaton has no start
  state, the states and the start state of the first are unchanged.
\<close>

theorem Union_into_startless:
  assumes "start fst1 = kNoStateId"
    and "CompatSymbols (isymbols fst1) (isymbols fst2)"
    and "CompatSymbols (osymbols fst1) (osymbols fst2)"
  shows "(start fst2 \<noteq> kNoStateId \<longrightarrow>
            states (Union_fst K CompatSymbols fst1 fst2) =
              states fst1 @ map (shift_state (NumStates fst1)) (states fst2) \<and>
            (states fst1 = [] \<longrightarrow>
               states (Union_fst K CompatSymbols fst1 fst2) = states fst2 \<and>
               start (Union_fst K CompatSymbols fst1 fst2) = start fst2) \<and>
            props (Union_fst K CompatSymbols fst1 fst2) =
              ((props fst1 AND (NOT (kCopyProperties K) OR kError K)) OR
               (fst_Properties fst2 (kFstProperties K) AND kCopyProperties K))) \<and>
         (start fst2 = kNoStateId \<longrightarrow>
            states (Union_fst K CompatSymbols fst1 fst2) = states fst1 \<and>
            start (Union_fst K CompatSymbols fst1 fst2) = kNoStateId)"
proof -
  have A: "start fst2 \<noteq> kNoStateId \<Longrightarrow>
      Union_fst K CompatSymbols fst1 fst2 =
        SetProperties K (fst_Properties fst2 (kFstProperties K)) (kCopyProperties K)
          (SetStart (start fst2) (foldl (Union_copy_state (NumStates fst1)) fst1 (states fst2)))"
    using assms by (simp add: Union_fst_def Let_def Union_loop_fields)
  have B: "start fst2 = kNoStateId \<Longrightarrow>
      states (Union_fst K CompatSymbols fst1 fst2) = states fst1 \<and>
      start (Union_fst K CompatSymbols fst1 fst2) = kNoStateId"
    using assms by (simp add: Union_fst_def Let_def SetProperties_fields)
  show ?thesis
    using B
    by (auto simp: A SetProperties_fields SetStart_fields Union_loop_states Union_loop_fields
        set_props_mask_def NumStates_def shift_state_0)
qed

theorem Union_into_startless_witness:
  "(start (empty_fst :: (int, nat) wfst) = kNoStateId \<and>
    example_compat (isymbols (empty_fst :: (int, nat) wfst)) (isymbols line_fst) \<and>
    example_compat (osymbols (empty_fst :: (int, nat) wfst)) (osymbols line_fst) \<and>
    start line_fst \<noteq> kNoStateId \<and> states (empty_fst :: (int, nat) wfst) = []) \<and>
   states (Union_fst example_consts example_compat empty_fst line_fst) = states line_fst \<and>
   start (Union_fst example_consts example_compat empty_fst line_fst) = start line_fst"
proof -
  have h: "start (empty_fst :: (int, nat) wfst) = kNoStateId \<and>
    example_compat (isymbols (empty_fst :: (int, nat) wfst)) (isymbols line_fst) \<and>
    example_compat (osymbols (empty_fst :: (int, nat) wfst)) (osymbols line_fst) \<and>
    start line_fst \<noteq> kNoStateId \<and> states (empty_fst :: (int, nat) wfst) = []"
    by code_simp
  from h Union_into_startless [of empty_fst example_compat line_fst example_consts]
  show ?thesis by blast
qed

text \<open>
  The claim as stated fails: both automata have no start state, the second has a state,
  and \<open>Union\<close> returns at the test of the second start state without copying it.
\<close>

theorem Union_into_startless_counterexample:
  "start (empty_fst :: (int, nat) wfst) = kNoStateId \<and>
   example_compat (isymbols (empty_fst :: (int, nat) wfst)) (isymbols startless_fst) \<and>
   example_compat (osymbols (empty_fst :: (int, nat) wfst)) (osymbols startless_fst) \<and>
   states (Union_fst example_consts example_compat empty_fst startless_fst) = [] \<and>
   states startless_fst \<noteq> []"
  by code_simp

text \<open>
  The start state \<open>Union\<close> sets for a first automaton that has states and no start state:
  the id the start state has in the second automaton, not moved by the state count.
\<close>

lemma Union_into_startless_start:
  "start (Union_fst example_consts example_compat startless_fst loop_fst) = 0 \<and>
   start loop_fst + NumStates startless_fst = 1"
  by code_simp

lemma Cache_SetFinal_fields:
  "impl_fst (Cache_SetFinal w s x) = impl_fst w"
  "impl_mapper (Cache_SetFinal w s x) = impl_mapper w"
  "impl_final_action (Cache_SetFinal w s x) = impl_final_action w"
  "impl_superfinal (Cache_SetFinal w s x) = impl_superfinal w"
  "impl_nstates (Cache_SetFinal w s x) = impl_nstates w"
  "cache_options (Cache_SetFinal w s x) = cache_options w"
  "cache_start (Cache_SetFinal w s x) = cache_start w"
  "impl_properties (Cache_SetFinal w s x) = impl_properties w"
  "impl_isymbols (Cache_SetFinal w s x) = impl_isymbols w"
  "impl_osymbols (Cache_SetFinal w s x) = impl_osymbols w"
  "mapper_calls (Cache_SetFinal w s x) = mapper_calls w"
  by (simp_all add: Cache_SetFinal_def mutate_state_fields)

lemma Final_fields:
  "impl_fst (snd (Final K w s)) = impl_fst w"
  "impl_mapper (snd (Final K w s)) = impl_mapper w"
  "impl_final_action (snd (Final K w s)) = impl_final_action w"
  "impl_superfinal (snd (Final K w s)) = impl_superfinal w"
  "impl_nstates (snd (Final K w s)) = impl_nstates w"
  "cache_options (snd (Final K w s)) = cache_options w"
  "cache_start (snd (Final K w s)) = cache_start w"
  "impl_isymbols (snd (Final K w s)) = impl_isymbols w"
  "impl_osymbols (snd (Final K w s)) = impl_osymbols w"
  by (simp_all add: Final_def Let_def call_mapper_def Cache_SetFinal_fields
      Impl_SetProperties_mask_def split: MapFinalAction.splits)

text \<open>What an uncached \<open>Final\<close> stores and returns.\<close>

lemma Final_uncached_store:
  assumes "\<not> HasFinal w s"
  shows "cache_store (snd (Final K w s)) t =
     (if t = s then Some ((entry_of (cache_store w) s)\<lparr>cs_final := lazy_final w s, cs_has_final := True\<rparr>)
      else if drops w s t then None else cache_store w t)"
  using assms
  by (simp add: Final_def Let_def call_mapper_def Cache_SetFinal_def mutate_state_store drops_def
      Impl_SetProperties_mask_def lazy_final_def mapped_final_arc_def nonzero_labels_def
      split: MapFinalAction.splits)

lemma Final_value:
  assumes "\<not> HasFinal w s"
  shows "fst (Final K w s) = lazy_final w s"
  using Final_uncached_store [OF assms, of K s]
  by (simp add: Final_def Let_def Cache_Final_def entry_of_def assms)

lemma Final_properties:
  "impl_properties (snd (Final K w s)) =
     (if \<not> HasFinal w s \<and> impl_final_action w = MAP_NO_SUPERFINAL \<and>
         nonzero_labels (mapped_final_arc w s)
      then set_props_mask K (impl_properties w) (kError K) (kError K)
      else impl_properties w)"
  by (simp add: Final_def Let_def call_mapper_def Cache_SetFinal_fields
      Impl_SetProperties_mask_def mapped_final_arc_def split: MapFinalAction.splits)

lemma mapped_final_arc_cong:
  "impl_fst w' = impl_fst w \<Longrightarrow> impl_mapper w' = impl_mapper w \<Longrightarrow>
   impl_superfinal w' = impl_superfinal w \<Longrightarrow> mapped_final_arc w' s = mapped_final_arc w s"
  by (simp add: mapped_final_arc_def FindIState_def)

lemma lazy_final_cong:
  assumes "impl_fst w' = impl_fst w" and "impl_mapper w' = impl_mapper w"
    and "impl_final_action w' = impl_final_action w" and "impl_superfinal w' = impl_superfinal w"
  shows "lazy_final w' s = lazy_final w s"
proof -
  have mf: "\<And>t. mapped_final_arc w' t = mapped_final_arc w t"
    by (rule mapped_final_arc_cong) fact+
  show ?thesis
    by (simp add: lazy_final_def assms(3,4) mf split: MapFinalAction.split)
qed

lemma lazy_arcs_cong:
  assumes "impl_fst w' = impl_fst w" and "impl_mapper w' = impl_mapper w"
    and "impl_final_action w' = impl_final_action w" and "impl_superfinal w' = impl_superfinal w"
  shows "lazy_arcs w' s = lazy_arcs w s"
proof -
  have 1: "\<And>t. FindIState w' t = FindIState w t"
    using assms(4) by (simp add: FindIState_def)
  have 2: "\<And>k. fst (FindOState w' k) = fst (FindOState w k)"
    using assms(4) by (simp add: FindOState_fst)
  have 3: "\<And>t. mapped_final_arc w' t = mapped_final_arc w t"
    by (rule mapped_final_arc_cong) fact+
  show ?thesis
    by (simp add: lazy_arcs_def 1 2 3 assms split: MapFinalAction.split)
qed

lemma coherentI:
  assumes "\<And>s e. cache_store w s = Some e \<Longrightarrow>
     (cs_has_final e \<longrightarrow> cs_final e = lazy_final w s) \<and>
     (cs_has_arcs e \<longrightarrow> cs_arcs e = lazy_arcs w s) \<and> (\<not> cs_has_arcs e \<longrightarrow> cs_arcs e = [])"
  shows "coherent w"
  using assms unfolding coherent_def by blast

lemma coherentD:
  assumes "coherent w" and "cache_store w s = Some e"
  shows "cs_has_final e \<Longrightarrow> cs_final e = lazy_final w s"
    and "cs_has_arcs e \<Longrightarrow> cs_arcs e = lazy_arcs w s"
    and "\<not> cs_has_arcs e \<Longrightarrow> cs_arcs e = []"
  using assms unfolding coherent_def by blast+

lemma coherent_entry:
  assumes "coherent w"
  shows "cs_has_final (entry_of (cache_store w) s) \<Longrightarrow>
           cs_final (entry_of (cache_store w) s) = lazy_final w s"
    and "cs_has_arcs (entry_of (cache_store w) s) \<Longrightarrow>
           cs_arcs (entry_of (cache_store w) s) = lazy_arcs w s"
    and "\<not> cs_has_arcs (entry_of (cache_store w) s) \<Longrightarrow> cs_arcs (entry_of (cache_store w) s) = []"
  using assms unfolding coherent_def entry_of_def new_CacheState_def
  by (auto split: option.splits)

lemma Final_coherent:
  assumes "coherent w"
  shows "coherent (snd (Final K w s))"
proof (cases "HasFinal w s")
  case True
  then show ?thesis using assms by (simp add: Final_cached)
next
  case False
  let ?w' = "snd (Final K w s)"
  have lf: "\<And>t. lazy_final ?w' t = lazy_final w t"
    by (rule lazy_final_cong) (simp_all add: Final_fields)
  have la: "\<And>t. lazy_arcs ?w' t = lazy_arcs w t"
    by (rule lazy_arcs_cong) (simp_all add: Final_fields)
  show ?thesis
  proof (rule coherentI)
    fix t e
    assume e: "cache_store ?w' t = Some e"
    show "(cs_has_final e \<longrightarrow> cs_final e = lazy_final ?w' t) \<and>
          (cs_has_arcs e \<longrightarrow> cs_arcs e = lazy_arcs ?w' t) \<and> (\<not> cs_has_arcs e \<longrightarrow> cs_arcs e = [])"
    proof (cases "t = s")
      case True
      with e have "e = (entry_of (cache_store w) s)\<lparr>cs_final := lazy_final w s, cs_has_final := True\<rparr>"
        by (simp add: Final_uncached_store [OF False])
      then show ?thesis
        using coherent_entry(2,3) [OF assms, of s] True by (simp add: lf la)
    next
      case False
      with e \<open>\<not> HasFinal w s\<close> have "cache_store w t = Some e"
        by (simp add: Final_uncached_store split: if_splits)
      then show ?thesis
        using assms by (simp add: lf la coherent_def)
    qed
  qed
qed

lemma Final_result:
  assumes "coherent w"
  shows "fst (Final K w s) = lazy_final w s"
proof (cases "HasFinal w s")
  case True
  then show ?thesis
    using coherent_entry(1) [OF assms, of s]
    by (simp add: Final_cached Cache_Final_def HasFinal_entry)
next
  case False
  then show ?thesis by (rule Final_value)
qed

lemma SetArcs_fields:
  "impl_fst (SetArcs w s) = impl_fst w"
  "impl_mapper (SetArcs w s) = impl_mapper w"
  "impl_final_action (SetArcs w s) = impl_final_action w"
  "impl_superfinal (SetArcs w s) = impl_superfinal w"
  "impl_nstates (SetArcs w s) = impl_nstates w"
  "cache_options (SetArcs w s) = cache_options w"
  "cache_start (SetArcs w s) = cache_start w"
  "impl_properties (SetArcs w s) = impl_properties w"
  "impl_isymbols (SetArcs w s) = impl_isymbols w"
  "impl_osymbols (SetArcs w s) = impl_osymbols w"
  "mapper_calls (SetArcs w s) = mapper_calls w"
  by (simp_all add: SetArcs_def mutate_state_fields)

lemma PushArc_fields:
  "impl_fst (PushArc w s a) = impl_fst w"
  "impl_mapper (PushArc w s a) = impl_mapper w"
  "impl_final_action (PushArc w s a) = impl_final_action w"
  "impl_superfinal (PushArc w s a) = impl_superfinal w"
  "impl_nstates (PushArc w s a) = impl_nstates w"
  "cache_options (PushArc w s a) = cache_options w"
  "cache_start (PushArc w s a) = cache_start w"
  "impl_properties (PushArc w s a) = impl_properties w"
  "impl_isymbols (PushArc w s a) = impl_isymbols w"
  "impl_osymbols (PushArc w s a) = impl_osymbols w"
  "mapper_calls (PushArc w s a) = mapper_calls w"
  by (simp_all add: PushArc_def mutate_state_fields)

lemma Expand_unfold:
  "Expand K w s =
     (if s = impl_superfinal w then SetArcs w s
      else
        let w1 = Expand_arcs w s (fst_Arcs (impl_fst w) (FindIState w s))
        in SetArcs (if \<not> HasFinal w s \<or> Cache_Final w s = Weight_Zero
                    then superfinal_step w1 s else w1) s)"
  by (cases "impl_final_action w"; cases "HasFinal w s")
     (simp_all add: Expand_def Let_def superfinal_step_def Expand_arcs_HasFinal Final_cached
        Expand_arcs_Cache_Final Expand_arcs_fields)

lemma superfinal_step_fields:
  "impl_fst (superfinal_step w s) = impl_fst w"
  "impl_mapper (superfinal_step w s) = impl_mapper w"
  "impl_final_action (superfinal_step w s) = impl_final_action w"
  "cache_options (superfinal_step w s) = cache_options w"
  "cache_start (superfinal_step w s) = cache_start w"
  "impl_properties (superfinal_step w s) = impl_properties w"
  "impl_isymbols (superfinal_step w s) = impl_isymbols w"
  "impl_osymbols (superfinal_step w s) = impl_osymbols w"
  by (simp_all add: superfinal_step_def call_mapper_def Let_def PushArc_fields
      split: MapFinalAction.splits)

lemma Expand_fields:
  "impl_fst (Expand K w s) = impl_fst w"
  "impl_mapper (Expand K w s) = impl_mapper w"
  "impl_final_action (Expand K w s) = impl_final_action w"
  "cache_options (Expand K w s) = cache_options w"
  "cache_start (Expand K w s) = cache_start w"
  "impl_properties (Expand K w s) = impl_properties w"
  "impl_isymbols (Expand K w s) = impl_isymbols w"
  "impl_osymbols (Expand K w s) = impl_osymbols w"
  by (simp_all add: Expand_unfold Let_def SetArcs_fields superfinal_step_fields Expand_arcs_fields)

lemma superfinal_step_quiet:
  assumes "quiet w s"
  shows "impl_superfinal (superfinal_step w s) = impl_superfinal w"
    and "entry_of (cache_store (superfinal_step w s)) s =
      (entry_of (cache_store w) s)\<lparr>cs_arcs := cs_arcs (entry_of (cache_store w) s) @
         (case impl_final_action w of
            MAP_NO_SUPERFINAL \<Rightarrow> []
          | MAP_ALLOW_SUPERFINAL \<Rightarrow> []
          | MAP_REQUIRE_SUPERFINAL \<Rightarrow>
              if nonzero_labels (mapped_final_arc w s) \<or> weight (mapped_final_arc w s) \<noteq> Weight_Zero
              then [Arc (ilabel (mapped_final_arc w s)) (olabel (mapped_final_arc w s))
                      (weight (mapped_final_arc w s)) (impl_superfinal w)]
              else [])\<rparr>"
    and "t \<noteq> s \<Longrightarrow> cache_store (superfinal_step w s) t = None \<or>
           cache_store (superfinal_step w s) t = cache_store w t"
  using assms
  by (simp_all add: superfinal_step_def quiet_def call_mapper_def mapped_final_arc_def Let_def
      PushArc_def mutate_state_fields entry_of_mutate_state mutate_state_store
      split: MapFinalAction.splits)

lemma quiet_cong:
  assumes "impl_fst w' = impl_fst w" and "impl_mapper w' = impl_mapper w"
    and "impl_final_action w' = impl_final_action w" and "impl_superfinal w' = impl_superfinal w"
  shows "quiet w' s = quiet w s"
  using mapped_final_arc_cong [OF assms(1,2,4), of s] assms(3) by (simp add: quiet_def)

lemma Expand_quiet:
  assumes coh: "coherent w" and q: "quiet w s" and na: "\<not> HasArcs w s"
  shows "impl_superfinal (Expand K w s) = impl_superfinal w"
    and "entry_of (cache_store (Expand K w s)) s =
           (entry_of (cache_store w) s)\<lparr>cs_arcs := lazy_arcs w s, cs_has_arcs := True\<rparr>"
    and "t \<noteq> s \<Longrightarrow> cache_store (Expand K w s) t = None \<or>
           cache_store (Expand K w s) t = cache_store w t"
    and "cache_store (Expand K w s) s \<noteq> None"
proof -
  let ?e = "entry_of (cache_store w) s"
  let ?w1 = "Expand_arcs w s (fst_Arcs (impl_fst w) (FindIState w s))"
  let ?regular = "map (\<lambda>a. map_arc (impl_mapper w) (a\<lparr>nextstate := fst (FindOState w (nextstate a))\<rparr>))
      (fst_Arcs (impl_fst w) (FindIState w s))"
  have e0: "cs_arcs ?e = []"
    using coherent_entry(3) [OF coh, of s] na by (simp add: HasArcs_entry)
  have q1: "quiet ?w1 s"
    using q by (simp add: quiet_cong [of ?w1 w] Expand_arcs_fields)
  have mf1: "mapped_final_arc ?w1 s = mapped_final_arc w s"
    by (rule mapped_final_arc_cong) (simp_all add: Expand_arcs_fields)
  have e1: "entry_of (cache_store ?w1) s = ?e\<lparr>cs_arcs := ?regular\<rparr>"
    by (simp add: Expand_arcs_entry e0)
  show "impl_superfinal (Expand K w s) = impl_superfinal w"
    by (simp add: Expand_unfold Let_def SetArcs_fields superfinal_step_quiet(1) [OF q1]
        Expand_arcs_fields)
  show "cache_store (Expand K w s) s \<noteq> None"
    by (simp add: Expand_unfold Let_def SetArcs_def mutate_state_store)
  show "t \<noteq> s \<Longrightarrow> cache_store (Expand K w s) t = None \<or>
           cache_store (Expand K w s) t = cache_store w t"
    using Expand_arcs_others [of t s w "fst_Arcs (impl_fst w) (FindIState w s)"]
      superfinal_step_quiet(3) [OF q1, of t]
    by (auto simp: Expand_unfold Let_def SetArcs_def mutate_state_store)
  show "entry_of (cache_store (Expand K w s)) s = ?e\<lparr>cs_arcs := lazy_arcs w s, cs_has_arcs := True\<rparr>"
  proof (cases "s = impl_superfinal w")
    case True
    with e0 show ?thesis
      by (simp add: Expand_unfold SetArcs_def entry_of_mutate_state lazy_arcs_def)
  next
    case ns: False
    show ?thesis
    proof (cases "impl_final_action w")
      case MAP_NO_SUPERFINAL
      then show ?thesis
        using ns
        by (simp add: Expand_unfold Let_def SetArcs_def entry_of_mutate_state lazy_arcs_def e1
            superfinal_step_def Expand_arcs_fields)
    next
      case MAP_ALLOW_SUPERFINAL
      then have nl: "\<not> nonzero_labels (mapped_final_arc w s)"
        using q by (simp add: quiet_def)
      show ?thesis
        using ns MAP_ALLOW_SUPERFINAL nl
        by (simp add: Expand_unfold Let_def SetArcs_def entry_of_mutate_state lazy_arcs_def e1
            superfinal_step_quiet(2) [OF q1] Expand_arcs_fields)
    next
      case MAP_REQUIRE_SUPERFINAL
      have chk: "\<not> HasFinal w s \<or> Cache_Final w s = Weight_Zero"
        using coherent_entry(1) [OF coh, of s] ns MAP_REQUIRE_SUPERFINAL
        by (auto simp: HasFinal_entry Cache_Final_def lazy_final_def)
      show ?thesis
        using ns MAP_REQUIRE_SUPERFINAL chk
        by (simp add: Expand_unfold Let_def SetArcs_def entry_of_mutate_state lazy_arcs_def e1
            superfinal_step_quiet(2) [OF q1] Expand_arcs_fields mf1)
    qed
  qed
qed

lemma same_view_refl: "same_view w w"
  by (simp add: same_view_def)

lemma same_view_trans: "same_view w'' w' \<Longrightarrow> same_view w' w \<Longrightarrow> same_view w'' w"
  by (simp add: same_view_def)

lemma same_view_lazy:
  assumes "same_view w' w"
  shows "lazy_final w' s = lazy_final w s" and "lazy_arcs w' s = lazy_arcs w s"
    and "quiet w' s = quiet w s" and "mapped_final_arc w' s = mapped_final_arc w s"
  using assms lazy_final_cong [of w' w s] lazy_arcs_cong [of w' w s] quiet_cong [of w' w s]
    mapped_final_arc_cong [of w' w s]
  by (simp_all add: same_view_def)

lemma Final_same_view: "same_view (snd (Final K w s)) w"
  by (simp add: same_view_def Final_fields)

lemma Expand_same_view:
  assumes "coherent w" and "quiet w s" and "\<not> HasArcs w s"
  shows "same_view (Expand K w s) w"
  using Expand_quiet(1) [OF assms] by (simp add: same_view_def Expand_fields)

lemma Expand_coherent:
  assumes coh: "coherent w" and q: "quiet w s" and na: "\<not> HasArcs w s"
  shows "coherent (Expand K w s)"
proof (rule coherentI)
  let ?w' = "Expand K w s"
  have sv: "same_view ?w' w"
    by (rule Expand_same_view) fact+
  fix t e
  assume e: "cache_store ?w' t = Some e"
  show "(cs_has_final e \<longrightarrow> cs_final e = lazy_final ?w' t) \<and>
        (cs_has_arcs e \<longrightarrow> cs_arcs e = lazy_arcs ?w' t) \<and> (\<not> cs_has_arcs e \<longrightarrow> cs_arcs e = [])"
  proof (cases "t = s")
    case True
    with e have "e = entry_of (cache_store ?w') s"
      by (simp add: entry_of_def)
    then have "e = (entry_of (cache_store w) s)\<lparr>cs_arcs := lazy_arcs w s, cs_has_arcs := True\<rparr>"
      by (simp add: Expand_quiet(2) [OF assms])
    then show ?thesis
      using coherent_entry(1) [OF coh, of s] True by (simp add: same_view_lazy [OF sv])
  next
    case False
    with e Expand_quiet(3) [OF assms, of t K] have "cache_store w t = Some e"
      by auto
    then show ?thesis
      using coh by (simp add: same_view_lazy [OF sv] coherent_def)
  qed
qed

lemma ArcIterator_cached: "HasArcs w s \<Longrightarrow> ArcIterator K w s = (Cache_Arcs w s, w)"
  by (simp add: ArcIterator_def)

lemma Expand_HasArcs: "HasArcs (Expand K w s) s"
  by (simp add: Expand_unfold Let_def HasArcs_def SetArcs_def mutate_state_store)

lemma ArcIterator_HasArcs: "HasArcs (snd (ArcIterator K w s)) s"
  by (simp add: ArcIterator_def Let_def Expand_HasArcs)

lemma ArcIterator_fields:
  "impl_fst (snd (ArcIterator K w s)) = impl_fst w"
  "impl_mapper (snd (ArcIterator K w s)) = impl_mapper w"
  "impl_final_action (snd (ArcIterator K w s)) = impl_final_action w"
  "cache_options (snd (ArcIterator K w s)) = cache_options w"
  "cache_start (snd (ArcIterator K w s)) = cache_start w"
  "impl_properties (snd (ArcIterator K w s)) = impl_properties w"
  "impl_isymbols (snd (ArcIterator K w s)) = impl_isymbols w"
  "impl_osymbols (snd (ArcIterator K w s)) = impl_osymbols w"
  by (simp_all add: ArcIterator_def Let_def Expand_fields)

lemma ArcIterator_result:
  assumes coh: "coherent w" and q: "quiet w s"
  shows "fst (ArcIterator K w s) = lazy_arcs w s"
    and "coherent (snd (ArcIterator K w s))"
    and "same_view (snd (ArcIterator K w s)) w"
proof -
  show "fst (ArcIterator K w s) = lazy_arcs w s"
  proof (cases "HasArcs w s")
    case True
    then show ?thesis
      using coherent_entry(2) [OF coh, of s]
      by (simp add: ArcIterator_cached Cache_Arcs_def HasArcs_entry)
  next
    case False
    then show ?thesis
      by (simp add: ArcIterator_def Let_def Cache_Arcs_def Expand_quiet(2) [OF coh q])
  qed
  show "coherent (snd (ArcIterator K w s))"
    using coh Expand_coherent [OF coh q] by (simp add: ArcIterator_def Let_def)
  show "same_view (snd (ArcIterator K w s)) w"
    using Expand_same_view [OF coh q] by (simp add: ArcIterator_def Let_def same_view_refl)
qed

lemma Start_fields:
  "impl_fst (snd (Start w)) = impl_fst w"
  "impl_mapper (snd (Start w)) = impl_mapper w"
  "impl_final_action (snd (Start w)) = impl_final_action w"
  "impl_superfinal (snd (Start w)) = impl_superfinal w"
  "cache_options (snd (Start w)) = cache_options w"
  "cache_store (snd (Start w)) = cache_store w"
  "impl_properties (snd (Start w)) = impl_properties w"
  "impl_isymbols (snd (Start w)) = impl_isymbols w"
  "impl_osymbols (snd (Start w)) = impl_osymbols w"
  "mapper_calls (snd (Start w)) = mapper_calls w"
  by (simp_all add: Start_def Let_def SetStart_cache_def case_prod_beta FindOState_fields)

lemma Start_value:
  "fst (Start w) = (case cache_start w of Some s \<Rightarrow> s | None \<Rightarrow> fst (FindOState w (start (impl_fst w))))"
  by (simp add: Start_def Let_def HasStart_def SetStart_cache_def case_prod_beta split: option.splits)

lemma Start_cache_start:
  "cache_start (snd (Start w)) = Some (fst (Start w))"
  by (simp add: Start_def Let_def HasStart_def SetStart_cache_def case_prod_beta split: option.splits)

lemma Start_same_view: "same_view (snd (Start w)) w"
  by (simp add: same_view_def Start_fields)

lemma same_view_coherent:
  assumes "same_view w' w" and "cache_store w' = cache_store w" and "coherent w"
  shows "coherent w'"
  using assms(2,3) by (simp add: coherent_def same_view_lazy [OF assms(1)])

lemma Start_coherent: "coherent w \<Longrightarrow> coherent (snd (Start w))"
  by (rule same_view_coherent [OF Start_same_view]) (simp_all add: Start_fields)

text \<open>Visiting a list of states of a coherent wrapper.\<close>

lemma visit_states_result:
  assumes "coherent w" and "\<forall>s \<in> set ids. quiet w s"
  shows "fst (visit_states K w ids) =
           map (\<lambda>s. \<lparr>final = lazy_final w s, arcs = lazy_arcs w s\<rparr>) ids \<and>
         coherent (snd (visit_states K w ids)) \<and> same_view (snd (visit_states K w ids)) w"
  using assms
proof (induction ids arbitrary: w)
  case Nil
  then show ?case by (simp add: same_view_refl)
next
  case (Cons s ids)
  let ?w1 = "snd (Final K w s)"
  let ?w2 = "snd (ArcIterator K ?w1 s)"
  have c1: "coherent ?w1"
    by (rule Final_coherent) fact
  have v1: "same_view ?w1 w"
    by (rule Final_same_view)
  have q1: "quiet ?w1 s"
    using Cons.prems(2) by (simp add: same_view_lazy [OF v1])
  have c2: "coherent ?w2" and v2': "same_view ?w2 ?w1"
    using ArcIterator_result [OF c1 q1] by simp_all
  have v2: "same_view ?w2 w"
    by (rule same_view_trans [OF v2' v1])
  have q2: "\<forall>t \<in> set ids. quiet ?w2 t"
    using Cons.prems(2) by (simp add: same_view_lazy [OF v2])
  have IH: "fst (visit_states K ?w2 ids) =
           map (\<lambda>s. \<lparr>final = lazy_final ?w2 s, arcs = lazy_arcs ?w2 s\<rparr>) ids \<and>
         coherent (snd (visit_states K ?w2 ids)) \<and> same_view (snd (visit_states K ?w2 ids)) ?w2"
    by (rule Cons.IH [OF c2 q2])
  have f: "fst (Final K w s) = lazy_final w s"
    by (rule Final_result) fact
  have a: "fst (ArcIterator K ?w1 s) = lazy_arcs w s"
    using ArcIterator_result(1) [OF c1 q1] by (simp add: same_view_lazy [OF v1])
  show ?case
    using IH f a same_view_trans [OF _ v2]
    by (simp add: case_prod_beta same_view_lazy [OF v2])
qed

lemma no_labelled_final_nth:
  assumes "no_labelled_final f m" and "valid_state f s"
  shows "\<not> nonzero_labels (map_arc m (final_pseudo_arc (fst_Final f s)))"
proof -
  from assms(2) have "nat s < length (states f)"
    by (auto simp: valid_state_def NumStates_def)
  then have "states f ! nat s \<in> set (states f)"
    by simp
  with assms(1) show ?thesis
    by (auto simp: no_labelled_final_def list_all_iff fst_Final_def)
qed

lemma settled_quiet:
  assumes "settled w" and "impl_final_action w = MAP_ALLOW_SUPERFINAL \<longrightarrow> valid_state (impl_fst w) s"
  shows "quiet w s"
  using assms no_labelled_final_nth [of "impl_fst w" "impl_mapper w" s]
  by (auto simp: quiet_def settled_def mapped_final_arc_def FindIState_def)

lemma CheckSuperfinal_settled:
  assumes "settled w" and "si_s it = int (siter_pos it)"
  shows "CheckSuperfinal w it = it"
proof (cases "impl_final_action w = MAP_ALLOW_SUPERFINAL \<and> \<not> si_superfinal it \<and> \<not> siter_Done w it")
  case True
  then have "valid_state (impl_fst w) (si_s it)"
    using assms(2) by (simp add: valid_state_def siter_Done_def NumStates_def)
  with assms(1) True have "\<not> nonzero_labels (map_arc (impl_mapper w)
      (final_pseudo_arc (fst_Final (impl_fst w) (si_s it))))"
    using no_labelled_final_nth [of "impl_fst w" "impl_mapper w" "si_s it"]
    by (auto simp: settled_def)
  then show ?thesis
    by (simp add: CheckSuperfinal_def Let_def)
next
  case False
  then show ?thesis
    by (auto simp: CheckSuperfinal_def Let_def)
qed

lemma SI_values_last:
  assumes "length (states (impl_fst w)) \<le> k"
  shows "SI_values w \<lparr>siter_pos = k, si_s = x, si_superfinal = b\<rparr> = (if b then [x] else [])"
  using assms
  by (simp add: SI_values.simps [of w "\<lparr>siter_pos = k, si_s = x, si_superfinal = b\<rparr>"]
      SI_values.simps [of w "\<lparr>siter_pos = k, si_s = x + 1, si_superfinal = False\<rparr>"]
      SI_Done_def siter_Done_def SI_Next_def SI_Value_def Let_def)

lemma SI_values_from:
  assumes "settled w" and "k \<le> length (states (impl_fst w))"
  shows "SI_values w \<lparr>siter_pos = k, si_s = int k, si_superfinal = b\<rparr> =
     map int [k ..< length (states (impl_fst w))] @
     (if b then [int (length (states (impl_fst w)))] else [])"
  using assms(2)
proof (induction "length (states (impl_fst w)) - k" arbitrary: k)
  case 0
  then have "k = length (states (impl_fst w))"
    by simp
  then show ?case
    by (simp add: SI_values_last)
next
  case (Suc d)
  then have lt: "k < length (states (impl_fst w))"
    by simp
  have nxt: "SI_Next w \<lparr>siter_pos = k, si_s = int k, si_superfinal = b\<rparr> =
      \<lparr>siter_pos = Suc k, si_s = int (Suc k), si_superfinal = b\<rparr>"
    using lt by (simp add: SI_Next_def Let_def siter_Done_def CheckSuperfinal_settled [OF assms(1)])
  have "SI_values w \<lparr>siter_pos = k, si_s = int k, si_superfinal = b\<rparr> =
      int k # SI_values w \<lparr>siter_pos = Suc k, si_s = int (Suc k), si_superfinal = b\<rparr>"
    using lt
    by (subst SI_values.simps) (simp add: SI_Done_def siter_Done_def SI_Value_def nxt)
  also have "SI_values w \<lparr>siter_pos = Suc k, si_s = int (Suc k), si_superfinal = b\<rparr> =
      map int [Suc k ..< length (states (impl_fst w))] @
      (if b then [int (length (states (impl_fst w)))] else [])"
    using Suc.hyps(2) lt by (intro Suc.hyps(1)) simp_all
  finally show ?case
    using lt by (simp add: upt_conv_Cons)
qed

lemma SI_values_settled:
  assumes "settled w"
  shows "SI_values w (StateIterator w) =
     map int [0 ..< length (states (impl_fst w))] @
     (if impl_final_action w = MAP_REQUIRE_SUPERFINAL then [int (length (states (impl_fst w)))] else [])"
  using SI_values_from [OF assms, of 0 "impl_final_action w = MAP_REQUIRE_SUPERFINAL"]
  by (simp add: StateIterator_def CheckSuperfinal_settled [OF assms])

lemma Expand_superfinal:
  assumes "quiet w s"
  shows "impl_superfinal (Expand K w s) = impl_superfinal w"
proof -
  have "quiet (Expand_arcs w s (fst_Arcs (impl_fst w) (FindIState w s))) s = quiet w s"
    by (rule quiet_cong) (simp_all add: Expand_arcs_fields)
  with assms have "quiet (Expand_arcs w s (fst_Arcs (impl_fst w) (FindIState w s))) s"
    by simp
  then show ?thesis
    by (simp add: Expand_unfold Let_def SetArcs_fields superfinal_step_quiet(1) Expand_arcs_fields)
qed

lemma quiet_not_allow: "impl_final_action w \<noteq> MAP_ALLOW_SUPERFINAL \<Longrightarrow> quiet w s"
  by (simp add: quiet_def)

lemma run_query_fields:
  "impl_fst (run_query K w q) = impl_fst w"
  "impl_mapper (run_query K w q) = impl_mapper w"
  "impl_final_action (run_query K w q) = impl_final_action w"
  "cache_options (run_query K w q) = cache_options w"
  "impl_isymbols (run_query K w q) = impl_isymbols w"
  "impl_osymbols (run_query K w q) = impl_osymbols w"
  by (cases q; simp add: Start_fields Final_fields ArcIterator_fields)+

lemma run_queries_fields:
  "impl_fst (run_queries K w qs) = impl_fst w"
  "impl_mapper (run_queries K w qs) = impl_mapper w"
  "impl_final_action (run_queries K w qs) = impl_final_action w"
  "cache_options (run_queries K w qs) = cache_options w"
  "impl_isymbols (run_queries K w qs) = impl_isymbols w"
  "impl_osymbols (run_queries K w qs) = impl_osymbols w"
  by (induction qs arbitrary: w; simp add: run_queries_def run_query_fields)+

lemma run_queries_Cons: "run_queries K w (q # qs) = run_queries K (run_query K w q) qs"
  by (simp add: run_queries_def)

lemma run_queries_Nil: "run_queries K w [] = w"
  by (simp add: run_queries_def)

lemma run_query_superfinal:
  assumes "impl_final_action w \<noteq> MAP_ALLOW_SUPERFINAL"
  shows "impl_superfinal (run_query K w q) = impl_superfinal w"
  using assms
  by (cases q)
     (simp_all add: Start_fields Final_fields ArcIterator_def Let_def Expand_superfinal quiet_not_allow)

lemma run_queries_superfinal:
  assumes "impl_final_action w \<noteq> MAP_ALLOW_SUPERFINAL"
  shows "impl_superfinal (run_queries K w qs) = impl_superfinal w"
  using assms
  by (induction qs arbitrary: w)
     (simp_all add: run_queries_Nil run_queries_Cons run_query_superfinal run_query_fields)

lemma run_queries_same_view:
  assumes "impl_final_action w \<noteq> MAP_ALLOW_SUPERFINAL"
  shows "same_view (run_queries K w qs) w"
  using assms by (simp add: same_view_def run_queries_fields run_queries_superfinal)

lemma ArcMapFst_fields:
  "impl_fst (ArcMapFst K f m opts) = f"
  "impl_mapper (ArcMapFst K f m opts) = m"
  "impl_final_action (ArcMapFst K f m opts) =
     (if start f = kNoStateId then MAP_NO_SUPERFINAL else FinalAction m)"
  "cache_options (ArcMapFst K f m opts) = opts"
  "cache_start (ArcMapFst K f m opts) = None"
  "cache_store (ArcMapFst K f m opts) = Map.empty"
  "impl_nstates (ArcMapFst K f m opts) = 0"
  "mapper_calls (ArcMapFst K f m opts) = []"
  "impl_properties (ArcMapFst K f m opts) =
     (if start f = kNoStateId then kNullProperties K
      else Properties m (fst_Properties f (kCopyProperties K)))"
  by (simp_all add: ArcMapFst_def Init_def Let_def Impl_SetProperties_def set_props_all_def)

lemma ArcMapFst_coherent: "coherent (ArcMapFst K f m opts)"
  by (simp add: coherent_def ArcMapFst_fields)

lemma run_query_cache_start:
  "cache_start (run_query K w q) =
     (if q = Q_Start then Some (fst (Start w)) else cache_start w)"
  by (cases q) (simp_all add: Start_cache_start Final_fields ArcIterator_fields)

lemma run_queries_startless_cache_start:
  assumes "start (impl_fst w) = kNoStateId" and "impl_final_action w = MAP_NO_SUPERFINAL"
    and "impl_superfinal w = kNoStateId"
    and "cache_start w = None \<or> cache_start w = Some kNoStateId"
  shows "cache_start (run_queries K w qs) = None \<or> cache_start (run_queries K w qs) = Some kNoStateId"
  using assms
proof (induction qs arbitrary: w)
  case Nil
  then show ?case by (simp add: run_queries_Nil)
next
  case (Cons q qs)
  have "cache_start (run_query K w q) = None \<or> cache_start (run_query K w q) = Some kNoStateId"
    using Cons.prems
    by (auto simp: run_query_cache_start Start_value FindOState_fst split: option.splits)
  then show ?case
    using Cons.prems
    by (simp add: run_queries_Cons Cons.IH run_query_fields run_query_superfinal)
qed

text \<open>
  C10, as amended. A wrapper constructed over an automaton without start state has the
  final action \<open>MAP_NO_SUPERFINAL\<close>, whatever the mapper declares, and the null property
  mask. Whatever is then asked of it, it never gets a superfinal state, \<open>Start\<close> returns
  \<open>kNoStateId\<close>, and its state iterator yields exactly the state ids of the input
  automaton: none when the input has no states.
\<close>

theorem ArcMapFst_no_start:
  assumes "start f = kNoStateId"
  shows "impl_final_action (ArcMapFst K f m opts) = MAP_NO_SUPERFINAL \<and>
         impl_properties (ArcMapFst K f m opts) = kNullProperties K \<and>
         impl_superfinal (ArcMapFst K f m opts) = kNoStateId \<and>
         impl_final_action (run_queries K (ArcMapFst K f m opts) qs) = MAP_NO_SUPERFINAL \<and>
         impl_superfinal (run_queries K (ArcMapFst K f m opts) qs) = kNoStateId \<and>
         fst (Start (run_queries K (ArcMapFst K f m opts) qs)) = kNoStateId \<and>
         SI_values (run_queries K (ArcMapFst K f m opts) qs)
           (StateIterator (run_queries K (ArcMapFst K f m opts) qs)) = fst_StateIds f"
proof -
  let ?v = "ArcMapFst K f m opts"
  let ?w = "run_queries K ?v qs"
  have fa0: "impl_final_action ?v = MAP_NO_SUPERFINAL" and sf0: "impl_superfinal ?v = kNoStateId"
    using assms by (simp_all add: ArcMapFst_fields Init_superfinal)
  have fa: "impl_final_action ?w = MAP_NO_SUPERFINAL"
    by (simp add: run_queries_fields fa0)
  have sf: "impl_superfinal ?w = kNoStateId"
    by (simp add: run_queries_superfinal fa0 sf0)
  have f: "impl_fst ?w = f"
    by (simp add: run_queries_fields ArcMapFst_fields)
  have cs: "cache_start ?w = None \<or> cache_start ?w = Some kNoStateId"
    by (rule run_queries_startless_cache_start) (simp_all add: ArcMapFst_fields assms sf0)
  have st: "fst (Start ?w) = kNoStateId"
    using cs by (auto simp: Start_value FindOState_fst sf f assms)
  have "settled ?w"
    by (simp add: settled_def fa)
  then have si: "SI_values ?w (StateIterator ?w) = fst_StateIds f"
    by (simp add: SI_values_settled fa f fst_StateIds_def)
  show ?thesis
    using assms fa0 sf0 fa sf st si by (simp add: ArcMapFst_fields)
qed

theorem ArcMapFst_no_start_witness:
  "start startless_fst = kNoStateId \<and>
   impl_final_action
     (ArcMapFst example_consts startless_fst (SuperFinalMapper 0 0 0 :: (int, int) ArcMapper)
        ArcMapFstOptions) = MAP_NO_SUPERFINAL \<and>
   impl_superfinal
     (run_queries example_consts
        (ArcMapFst example_consts startless_fst (SuperFinalMapper 0 0 0 :: (int, int) ArcMapper)
           ArcMapFstOptions) [Q_Start, Q_Final 0, Q_Arcs 0]) = kNoStateId"
proof -
  have h: "start startless_fst = kNoStateId"
    by code_simp
  from h ArcMapFst_no_start [of startless_fst example_consts "SuperFinalMapper 0 0 0" ArcMapFstOptions
      "[Q_Start, Q_Final 0, Q_Arcs 0]"]
  show ?thesis by blast
qed

text \<open>
  The claim as stated fails: over an automaton with one final state and no start state,
  and with a mapper that declares \<open>MAP_REQUIRE_SUPERFINAL\<close>, the wrapper has a state: its
  state iterator yields the id 0, with the final weight \<^verbatim>\<open>One()\<close> and no arcs.
\<close>

lemma startless_wrapper_states:
  "SI_values
     (ArcMapFst example_consts startless_fst (SuperFinalMapper 0 0 0 :: (int, int) ArcMapper)
        ArcMapFstOptions)
     (StateIterator
        (ArcMapFst example_consts startless_fst (SuperFinalMapper 0 0 0 :: (int, int) ArcMapper)
           ArcMapFstOptions)) = [0]"
proof -
  have "settled (ArcMapFst example_consts startless_fst (SuperFinalMapper 0 0 0 :: (int, int) ArcMapper)
        ArcMapFstOptions)"
    by (simp add: settled_def ArcMapFst_fields startless_fst_def empty_fst_def)
  then show ?thesis
    by (simp add: SI_values_settled ArcMapFst_fields startless_fst_def empty_fst_def)
qed

theorem ArcMapFst_no_start_counterexample:
  "start startless_fst = kNoStateId \<and>
   FinalAction (SuperFinalMapper 0 0 0 :: (int, int) ArcMapper) = MAP_REQUIRE_SUPERFINAL \<and>
   SI_values
     (ArcMapFst example_consts startless_fst (SuperFinalMapper 0 0 0 :: (int, int) ArcMapper)
        ArcMapFstOptions)
     (StateIterator
        (ArcMapFst example_consts startless_fst (SuperFinalMapper 0 0 0 :: (int, int) ArcMapper)
           ArcMapFstOptions)) = [0] \<and>
   fst (Final example_consts
     (ArcMapFst example_consts startless_fst (SuperFinalMapper 0 0 0 :: (int, int) ArcMapper)
        ArcMapFstOptions) 0) = 1"
proof -
  have "start startless_fst = kNoStateId \<and>
   FinalAction (SuperFinalMapper 0 0 0 :: (int, int) ArcMapper) = MAP_REQUIRE_SUPERFINAL \<and>
   fst (Final example_consts
     (ArcMapFst example_consts startless_fst (SuperFinalMapper 0 0 0 :: (int, int) ArcMapper)
        ArcMapFstOptions) 0) = 1"
    by code_simp
  with startless_wrapper_states show ?thesis by blast
qed

lemma AddArc_update_states: "(AddArc s a f)\<lparr>states := X\<rparr> = f\<lparr>states := X\<rparr>"
  by (simp add: AddArc_def)

lemma foldl_AddArc_eq:
  "foldl (\<lambda>g a. AddArc s (h a) g) f as =
     f\<lparr>states := (states f)[nat s := (states f ! nat s)\<lparr>arcs := arcs (states f ! nat s) @ map h as\<rparr>]\<rparr>"
proof (induction as arbitrary: f)
  case Nil
  show ?case by simp
next
  case (Cons a as)
  show ?case
    by (cases "nat s < length (states f)")
       (simp_all add: Cons.IH AddArc_states AddArc_update_states list_update_beyond)
qed

lemma add_superfinal_eq:
  "add_superfinal f = (f\<lparr>states := states f @ [superfinal_state]\<rparr>, NumStates f)"
  by (simp add: add_superfinal_def SetFinal_def AddState_def NumStates_def new_state_def
      superfinal_state_def)

lemma set_props_mask_error_idem:
  "set_props_mask K (p OR kError K) (kError K) (kError K) = p OR kError K"
  by (auto simp: set_props_mask_def bit_eq_iff bit_simps)

text \<open>One round of the copying loop that does not create the superfinal state.\<close>

lemma ArcMap_copy_state_quiet:
  assumes "0 \<le> s" and "nat s < length (states ofst)" and "states ofst ! nat s = new_state"
    and "fa = MAP_ALLOW_SUPERFINAL \<longrightarrow> \<not> nonzero_labels (mapped_final m (states ifst ! nat s))"
  shows "ArcMap_copy_state K m fa ifst (ofst, sf) s =
     (ofst\<lparr>start := (if s = start ifst then s else start ofst),
            states := (states ofst)[nat s := eager_state m fa sf (states ifst ! nat s)],
            props := (if fa = MAP_NO_SUPERFINAL \<and> nonzero_labels (mapped_final m (states ifst ! nat s))
                      then props ofst OR kError K else props ofst)\<rparr>, sf)"
  using assms
  unfolding ArcMap_copy_state_def foldl_AddArc_eq
  by (cases fa)
     (auto simp: Let_def SetStart_def SetFinal_def AddArc_def
        SetProperties_def set_props_mask_error fst_Final_def fst_Arcs_def mapped_final_def
        eager_state_def new_state_def)

lemma update_after_prefix:
  assumes "length xs = k" and "k < length zs"
  shows "(xs @ drop k zs)[k := v] = (xs @ [v]) @ drop (Suc k) zs"
proof -
  have "drop k zs = zs ! k # drop (Suc k) zs"
    using assms(2) by (simp add: Cons_nth_drop_Suc)
  then show ?thesis
    using assms(1) by (simp add: list_update_append)
qed

lemma no_labelled_final_mapped:
  assumes "no_labelled_final f m" and "i < length (states f)"
  shows "\<not> nonzero_labels (mapped_final m (states f ! i))"
  using assms by (auto simp: no_labelled_final_def list_all_iff mapped_final_def)

text \<open>The copying loop after its first \<open>k\<close> rounds.\<close>

lemma ArcMap_copy_loop:
  assumes "k \<le> length (states ifst)" and "length (states ifst) \<le> length (states o0)"
    and "\<forall>i < length (states ifst). states o0 ! i = new_state"
    and "fa = MAP_ALLOW_SUPERFINAL \<longrightarrow> no_labelled_final ifst m"
  shows "foldl (ArcMap_copy_state K m fa ifst) (o0, sf) (map int [0 ..< k]) =
     (o0\<lparr>start := (if 0 \<le> start ifst \<and> start ifst < int k then start ifst else start o0),
          states := map (eager_state m fa sf) (take k (states ifst)) @ drop k (states o0),
          props := (if fa = MAP_NO_SUPERFINAL \<and>
                       (\<exists>i < k. nonzero_labels (mapped_final m (states ifst ! i)))
                    then props o0 OR kError K else props o0)\<rparr>, sf)"
  using assms(1)
proof (induction k)
  case 0
  show ?case by simp
next
  case (Suc k)
  let ?ok = "o0\<lparr>start := (if 0 \<le> start ifst \<and> start ifst < int k then start ifst else start o0),
          states := map (eager_state m fa sf) (take k (states ifst)) @ drop k (states o0),
          props := (if fa = MAP_NO_SUPERFINAL \<and>
                       (\<exists>i < k. nonzero_labels (mapped_final m (states ifst ! i)))
                    then props o0 OR kError K else props o0)\<rparr>"
  have k: "k < length (states ifst)" "k < length (states o0)"
    using Suc.prems assms(2) by simp_all
  have IH: "foldl (ArcMap_copy_state K m fa ifst) (o0, sf) (map int [0 ..< k]) = (?ok, sf)"
    using Suc.IH k(1) by simp
  have len: "length (map (eager_state m fa sf) (take k (states ifst))) = k"
    using k(1) by simp
  have nth: "states ?ok ! nat (int k) = new_state"
    using k assms(3) len by (simp add: nth_append)
  have q: "fa = MAP_ALLOW_SUPERFINAL \<longrightarrow> \<not> nonzero_labels (mapped_final m (states ifst ! nat (int k)))"
    using assms(4) k(1) by (simp add: no_labelled_final_mapped)
  have step: "ArcMap_copy_state K m fa ifst (?ok, sf) (int k) =
     (?ok\<lparr>start := (if int k = start ifst then int k else start ?ok),
            states := (states ?ok)[nat (int k) := eager_state m fa sf (states ifst ! nat (int k))],
            props := (if fa = MAP_NO_SUPERFINAL \<and> nonzero_labels (mapped_final m (states ifst ! nat (int k)))
                      then props ?ok OR kError K else props ?ok)\<rparr>, sf)"
    by (rule ArcMap_copy_state_quiet [OF _ _ nth q]) (use k len in simp_all)
  have st: "(states ?ok)[nat (int k) := eager_state m fa sf (states ifst ! nat (int k))] =
      map (eager_state m fa sf) (take (Suc k) (states ifst)) @ drop (Suc k) (states o0)"
    using update_after_prefix [OF len k(2)] k(1) by (simp add: take_Suc_conv_app_nth)
  have ex: "(\<exists>i < Suc k. nonzero_labels (mapped_final m (states ifst ! i))) =
      ((\<exists>i < k. nonzero_labels (mapped_final m (states ifst ! i))) \<or>
       nonzero_labels (mapped_final m (states ifst ! k)))"
    by (auto simp: less_Suc_eq)
  have "foldl (ArcMap_copy_state K m fa ifst) (o0, sf) (map int [0 ..< Suc k]) =
      ArcMap_copy_state K m fa ifst (?ok, sf) (int k)"
    by (simp add: IH)
  also have "\<dots> = (o0\<lparr>start := (if 0 \<le> start ifst \<and> start ifst < int (Suc k) then start ifst else start o0),
          states := map (eager_state m fa sf) (take (Suc k) (states ifst)) @ drop (Suc k) (states o0),
          props := (if fa = MAP_NO_SUPERFINAL \<and>
                       (\<exists>i < Suc k. nonzero_labels (mapped_final m (states ifst ! i)))
                    then props o0 OR kError K else props o0)\<rparr>, sf)"
    unfolding step st ex by (auto simp: or.assoc)
  finally show ?case .
qed

lemma AddState_loop:
  "foldl (\<lambda>f s. AddState f) f ids = f\<lparr>states := states f @ replicate (length ids) new_state\<rparr>"
  by (induction ids arbitrary: f) (simp_all add: AddState_def replicate_app_Cons_same)

lemma eager_state_superfinal_irrelevant:
  assumes "fa \<noteq> MAP_REQUIRE_SUPERFINAL"
    and "fa = MAP_ALLOW_SUPERFINAL \<longrightarrow> \<not> nonzero_labels (mapped_final m st)"
  shows "eager_state m fa sf st = eager_state m fa sf' st"
  using assms by (cases fa) (simp_all add: eager_state_def)

text \<open>
  The result of the copying \<open>ArcMap\<close> for an input with a start state, when the policy
  is not allow-superfinal or no final weight is mapped to a labelled pseudo-arc.
\<close>

lemma ArcMap_copy_result:
  assumes "start ifst \<noteq> kNoStateId"
    and "FinalAction m = MAP_ALLOW_SUPERFINAL \<longrightarrow> no_labelled_final ifst m"
  shows "states (ArcMap_copy K m ifst o0) =
           map (eager_state m (FinalAction m) (NumStates ifst)) (states ifst) @
           (if FinalAction m = MAP_REQUIRE_SUPERFINAL then [superfinal_state] else [])"
    and "start (ArcMap_copy K m ifst o0) =
           (if valid_state ifst (start ifst) then start ifst else kNoStateId)"
    and "FinalAction m = MAP_NO_SUPERFINAL \<Longrightarrow>
         \<exists>i < length (states ifst). nonzero_labels (mapped_final m (states ifst ! i)) \<Longrightarrow>
         has_error K (props (ArcMap_copy K m ifst o0))"
proof -
  let ?fa = "FinalAction m"
  let ?n = "length (states ifst)"
  define o1 where "o1 = DeleteStates o0"
  define o2 where "o2 = (if InputSymbolsAction m = MAP_COPY_SYMBOLS then SetInputSymbols (isymbols ifst) o1
                else if InputSymbolsAction m = MAP_CLEAR_SYMBOLS then SetInputSymbols None o1
                else o1)"
  define o3 where "o3 = (if OutputSymbolsAction m = MAP_COPY_SYMBOLS then SetOutputSymbols (osymbols ifst) o2
                else if OutputSymbolsAction m = MAP_CLEAR_SYMBOLS then SetOutputSymbols None o2
                else o2)"
  define o4 where "o4 = foldl (\<lambda>f s. AddState f) o3 (fst_StateIds ifst)"
  define os where "os = (if ?fa = MAP_REQUIRE_SUPERFINAL then add_superfinal o4 else (o4, kNoStateId))"
  define os1 where "os1 = foldl (ArcMap_copy_state K m ?fa ifst) os (fst_StateIds ifst)"
  have o3: "states o3 = []" "start o3 = kNoStateId" "props o3 = props o0"
    by (simp_all add: o3_def o2_def o1_def DeleteStates_def SetInputSymbols_def SetOutputSymbols_def)
  have o4: "states o4 = replicate ?n new_state" "start o4 = kNoStateId" "props o4 = props o0"
    by (simp_all add: o4_def AddState_loop o3 fst_StateIds_def)
  define sf where "sf = (if ?fa = MAP_REQUIRE_SUPERFINAL then int ?n else kNoStateId)"
  define o5 where "o5 = fst os"
  have os: "os = (o5, sf)"
    by (simp add: o5_def os_def sf_def add_superfinal_eq NumStates_def o4)
  have o5: "states o5 = replicate ?n new_state @ (if ?fa = MAP_REQUIRE_SUPERFINAL then [superfinal_state] else [])"
      "start o5 = kNoStateId" "props o5 = props o0"
    by (simp_all add: o5_def os_def add_superfinal_eq o4)
  have loop: "os1 =
     (o5\<lparr>start := (if 0 \<le> start ifst \<and> start ifst < int ?n then start ifst else start o5),
          states := map (eager_state m ?fa sf) (take ?n (states ifst)) @ drop ?n (states o5),
          props := (if ?fa = MAP_NO_SUPERFINAL \<and>
                       (\<exists>i < ?n. nonzero_labels (mapped_final m (states ifst ! i)))
                    then props o5 OR kError K else props o5)\<rparr>, sf)"
    unfolding os1_def os fst_StateIds_def
    by (rule ArcMap_copy_loop) (use assms(2) in \<open>simp_all add: o5 nth_append\<close>)
  have A: "ArcMap_copy K m ifst o0 =
      SetProperties K (Properties m (fst_Properties ifst (kCopyProperties K)) OR
        fst_Properties (fst os1) (kFstProperties K)) (kFstProperties K) (fst os1)"
    using assms(1)
    by (simp add: ArcMap_copy_def Let_def o1_def o2_def o3_def o4_def os_def os1_def)
  have same: "map (eager_state m ?fa sf) (states ifst) = map (eager_state m ?fa (NumStates ifst)) (states ifst)"
  proof (cases "?fa = MAP_REQUIRE_SUPERFINAL")
    case True
    then show ?thesis by (simp add: sf_def NumStates_def)
  next
    case False
    have "\<forall>st \<in> set (states ifst). ?fa = MAP_ALLOW_SUPERFINAL \<longrightarrow> \<not> nonzero_labels (mapped_final m st)"
      using assms(2) by (auto simp: no_labelled_final_def list_all_iff mapped_final_def)
    then show ?thesis
      using False eager_state_superfinal_irrelevant [of ?fa m _ sf "NumStates ifst"] by auto
  qed
  show "states (ArcMap_copy K m ifst o0) =
           map (eager_state m ?fa (NumStates ifst)) (states ifst) @
           (if ?fa = MAP_REQUIRE_SUPERFINAL then [superfinal_state] else [])"
    by (simp add: A SetProperties_fields loop o5 same)
  show "start (ArcMap_copy K m ifst o0) =
           (if valid_state ifst (start ifst) then start ifst else kNoStateId)"
    by (simp add: A SetProperties_fields loop o5 valid_state_def NumStates_def)
  show "has_error K (props (ArcMap_copy K m ifst o0))"
    if "?fa = MAP_NO_SUPERFINAL"
      and "\<exists>i < length (states ifst). nonzero_labels (mapped_final m (states ifst ! i))"
  proof -
    have "props (fst os1) = props o0 OR kError K"
      using that by (simp add: loop o5)
    then have "has_error K (props (fst os1))"
      by (auto simp: has_error_def bit_eq_iff bit_simps)
    then show ?thesis
      by (simp add: A SetProperties_fields set_props_mask_keeps_error)
  qed
qed

lemma vstate_update_all:
  "st\<lparr>arcs := X, final := Y\<rparr> = \<lparr>final = Y, arcs = X\<rparr>"
  "st\<lparr>final := Y, arcs := X\<rparr> = \<lparr>final = Y, arcs = X\<rparr>"
  by (cases st; simp)+

lemma vstate_update_arcs_same: "arcs st = X \<Longrightarrow> st\<lparr>arcs := X\<rparr> = st"
  by (cases st) simp

text \<open>One round of the in-place loop, on a state that is not the superfinal state.\<close>

lemma ArcMap_inplace_state_quiet:
  assumes "0 \<le> s" and "nat s < length (states f)"
    and "fa = MAP_ALLOW_SUPERFINAL \<longrightarrow> \<not> nonzero_labels (mapped_final m (states f ! nat s))"
    and "fa \<noteq> MAP_NO_SUPERFINAL \<longrightarrow> s \<noteq> sf"
  shows "ArcMap_inplace_state K m fa (f, sf) s =
     (f\<lparr>states := (states f)[nat s := eager_state m fa sf (states f ! nat s)],
        props := (if fa = MAP_NO_SUPERFINAL \<and> nonzero_labels (mapped_final m (states f ! nat s))
                  then props f OR kError K else props f)\<rparr>, sf)"
  using assms
  by (cases fa)
     (auto simp: ArcMap_inplace_state_def map_arcs_inplace_def Let_def SetFinal_def AddArc_def
        SetProperties_def set_props_mask_error fst_Final_def mapped_final_def eager_state_def Arc_def
        vstate_update_all)

lemma ArcMap_inplace_state_superfinal:
  assumes "fa \<noteq> MAP_NO_SUPERFINAL" and "nat sf < length (states f)"
    and "arcs (states f ! nat sf) = []"
  shows "ArcMap_inplace_state K m fa (f, sf) sf = (f, sf)"
  using assms
  by (cases fa)
     (simp_all add: ArcMap_inplace_state_def map_arcs_inplace_def Let_def vstate_update_arcs_same)

text \<open>The in-place loop after its first \<open>k\<close> rounds, none of them on the superfinal state.\<close>

lemma ArcMap_inplace_loop:
  assumes "k \<le> length (states f0)"
    and "fa = MAP_ALLOW_SUPERFINAL \<longrightarrow>
           (\<forall>i < k. \<not> nonzero_labels (mapped_final m (states f0 ! i)))"
    and "fa \<noteq> MAP_NO_SUPERFINAL \<longrightarrow> sf < 0 \<or> int k \<le> sf"
  shows "foldl (ArcMap_inplace_state K m fa) (f0, sf) (map int [0 ..< k]) =
     (f0\<lparr>states := map (eager_state m fa sf) (take k (states f0)) @ drop k (states f0),
          props := (if fa = MAP_NO_SUPERFINAL \<and>
                       (\<exists>i < k. nonzero_labels (mapped_final m (states f0 ! i)))
                    then props f0 OR kError K else props f0)\<rparr>, sf)"
  using assms
proof (induction k)
  case 0
  show ?case by simp
next
  case (Suc k)
  let ?fk = "f0\<lparr>states := map (eager_state m fa sf) (take k (states f0)) @ drop k (states f0),
          props := (if fa = MAP_NO_SUPERFINAL \<and>
                       (\<exists>i < k. nonzero_labels (mapped_final m (states f0 ! i)))
                    then props f0 OR kError K else props f0)\<rparr>"
  have k: "k < length (states f0)"
    using Suc.prems(1) by simp
  have IH: "foldl (ArcMap_inplace_state K m fa) (f0, sf) (map int [0 ..< k]) = (?fk, sf)"
    using Suc.IH Suc.prems k by auto
  have len: "length (map (eager_state m fa sf) (take k (states f0))) = k"
    using k by simp
  have nth: "states ?fk ! nat (int k) = states f0 ! k"
    using k len by (simp add: nth_append)
  have step: "ArcMap_inplace_state K m fa (?fk, sf) (int k) =
     (?fk\<lparr>states := (states ?fk)[nat (int k) := eager_state m fa sf (states ?fk ! nat (int k))],
        props := (if fa = MAP_NO_SUPERFINAL \<and> nonzero_labels (mapped_final m (states ?fk ! nat (int k)))
                  then props ?fk OR kError K else props ?fk)\<rparr>, sf)"
    by (rule ArcMap_inplace_state_quiet) (use k len Suc.prems nth in auto)
  have st: "(states ?fk)[nat (int k) := eager_state m fa sf (states f0 ! k)] =
      map (eager_state m fa sf) (take (Suc k) (states f0)) @ drop (Suc k) (states f0)"
    using update_after_prefix [OF len k] k by (simp add: take_Suc_conv_app_nth)
  have ex: "(\<exists>i < Suc k. nonzero_labels (mapped_final m (states f0 ! i))) =
      ((\<exists>i < k. nonzero_labels (mapped_final m (states f0 ! i))) \<or>
       nonzero_labels (mapped_final m (states f0 ! k)))"
    by (auto simp: less_Suc_eq)
  have "foldl (ArcMap_inplace_state K m fa) (f0, sf) (map int [0 ..< Suc k]) =
      ArcMap_inplace_state K m fa (?fk, sf) (int k)"
    by (simp add: IH)
  also have "\<dots> = (f0\<lparr>states := map (eager_state m fa sf) (take (Suc k) (states f0)) @ drop (Suc k) (states f0),
          props := (if fa = MAP_NO_SUPERFINAL \<and>
                       (\<exists>i < Suc k. nonzero_labels (mapped_final m (states f0 ! i)))
                    then props f0 OR kError K else props f0)\<rparr>, sf)"
    unfolding step nth st ex by (auto simp: or.assoc)
  finally show ?case .
qed

text \<open>
  The result of the in-place \<open>ArcMap\<close> for an automaton with a start state, when the
  policy is not allow-superfinal or no final weight is mapped to a labelled pseudo-arc.
\<close>

lemma ArcMap_inplace_result:
  assumes "start f \<noteq> kNoStateId"
    and "FinalAction m = MAP_ALLOW_SUPERFINAL \<longrightarrow> no_labelled_final f m"
  shows "states (ArcMap_inplace K m f) =
           map (eager_state m (FinalAction m) (NumStates f)) (states f) @
           (if FinalAction m = MAP_REQUIRE_SUPERFINAL then [superfinal_state] else [])"
    and "start (ArcMap_inplace K m f) = start f"
    and "FinalAction m = MAP_NO_SUPERFINAL \<Longrightarrow>
         \<exists>i < length (states f). nonzero_labels (mapped_final m (states f ! i)) \<Longrightarrow>
         has_error K (props (ArcMap_inplace K m f))"
proof -
  let ?fa = "FinalAction m"
  let ?n = "length (states f)"
  define f1 where "f1 = (if InputSymbolsAction m = MAP_CLEAR_SYMBOLS then SetInputSymbols None f else f)"
  define f2 where "f2 = (if OutputSymbolsAction m = MAP_CLEAR_SYMBOLS then SetOutputSymbols None f1 else f1)"
  define fs where "fs = (if ?fa = MAP_REQUIRE_SUPERFINAL then add_superfinal f2 else (f2, kNoStateId))"
  define fs1 where "fs1 = foldl (ArcMap_inplace_state K m ?fa) fs (fst_StateIds (fst fs))"
  have f2: "states f2 = states f" "start f2 = start f" "props f2 = props f"
    by (simp_all add: f2_def f1_def SetInputSymbols_def SetOutputSymbols_def)
  define sf where "sf = (if ?fa = MAP_REQUIRE_SUPERFINAL then int ?n else kNoStateId)"
  define f3 where "f3 = fst fs"
  have fs: "fs = (f3, sf)"
    by (simp add: f3_def fs_def sf_def add_superfinal_eq NumStates_def f2)
  have f3: "states f3 = states f @ (if ?fa = MAP_REQUIRE_SUPERFINAL then [superfinal_state] else [])"
      "start f3 = start f" "props f3 = props f"
    by (simp_all add: f3_def fs_def add_superfinal_eq f2)
  have ql: "?fa = MAP_ALLOW_SUPERFINAL \<longrightarrow>
      (\<forall>i < ?n. \<not> nonzero_labels (mapped_final m (states f3 ! i)))"
    using assms(2) by (simp add: f3 nth_append no_labelled_final_mapped)
  have loop: "foldl (ArcMap_inplace_state K m ?fa) (f3, sf) (map int [0 ..< ?n]) =
     (f3\<lparr>states := map (eager_state m ?fa sf) (take ?n (states f3)) @ drop ?n (states f3),
          props := (if ?fa = MAP_NO_SUPERFINAL \<and>
                       (\<exists>i < ?n. nonzero_labels (mapped_final m (states f3 ! i)))
                    then props f3 OR kError K else props f3)\<rparr>, sf)"
    by (rule ArcMap_inplace_loop) (use ql in \<open>simp_all add: f3 sf_def\<close>)
  let ?g = "f3\<lparr>states := map (eager_state m ?fa sf) (states f) @
                (if ?fa = MAP_REQUIRE_SUPERFINAL then [superfinal_state] else []),
          props := (if ?fa = MAP_NO_SUPERFINAL \<and>
                       (\<exists>i < ?n. nonzero_labels (mapped_final m (states f ! i)))
                    then props f OR kError K else props f)\<rparr>"
  have loop': "foldl (ArcMap_inplace_state K m ?fa) (f3, sf) (map int [0 ..< ?n]) = (?g, sf)"
    unfolding loop by (simp add: f3 nth_append cong: conj_cong)
  have fs1: "fs1 = (?g, sf)"
  proof (cases "?fa = MAP_REQUIRE_SUPERFINAL")
    case True
    have ids: "fst_StateIds f3 = map int [0 ..< ?n] @ [int ?n]"
      using True by (simp add: fst_StateIds_def f3)
    have sfn: "sf = int ?n"
      using True by (simp add: sf_def)
    have last: "ArcMap_inplace_state K m ?fa (?g, sf) sf = (?g, sf)"
      by (rule ArcMap_inplace_state_superfinal)
         (use True in \<open>simp_all add: sf_def nth_append superfinal_state_def\<close>)
    have "fs1 = ArcMap_inplace_state K m ?fa
        (foldl (ArcMap_inplace_state K m ?fa) (f3, sf) (map int [0 ..< ?n])) (int ?n)"
      unfolding fs1_def fs fst_conv ids by simp
    also have "\<dots> = ArcMap_inplace_state K m ?fa (?g, sf) sf"
      by (subst loop') (simp only: sfn)
    finally show ?thesis
      unfolding last .
  next
    case False
    then have ids: "fst_StateIds f3 = map int [0 ..< ?n]"
      by (simp add: fst_StateIds_def f3)
    show ?thesis
      by (simp add: fs1_def fs ids loop')
  qed
  have A: "ArcMap_inplace K m f =
      SetProperties K (Properties m (fst_Properties f2 (kFstProperties K))) (kFstProperties K) ?g"
  proof -
    have "ArcMap_inplace K m f =
      SetProperties K (Properties m (fst_Properties f2 (kFstProperties K))) (kFstProperties K) (fst fs1)"
      using assms(1) unfolding ArcMap_inplace_def fs1_def fs_def f2_def f1_def Let_def
      by (simp add: SetInputSymbols_def SetOutputSymbols_def)
    then show ?thesis
      by (simp only: fs1 fst_conv)
  qed
  have same: "map (eager_state m ?fa sf) (states f) = map (eager_state m ?fa (NumStates f)) (states f)"
  proof (cases "?fa = MAP_REQUIRE_SUPERFINAL")
    case True
    then show ?thesis by (simp add: sf_def NumStates_def)
  next
    case False
    have "\<forall>st \<in> set (states f). ?fa = MAP_ALLOW_SUPERFINAL \<longrightarrow> \<not> nonzero_labels (mapped_final m st)"
      using assms(2) by (auto simp: no_labelled_final_def list_all_iff mapped_final_def)
    then show ?thesis
      using False eager_state_superfinal_irrelevant [of ?fa m _ sf "NumStates f"] by auto
  qed
  show "states (ArcMap_inplace K m f) =
           map (eager_state m ?fa (NumStates f)) (states f) @
           (if ?fa = MAP_REQUIRE_SUPERFINAL then [superfinal_state] else [])"
    by (simp add: A SetProperties_fields same)
  show "start (ArcMap_inplace K m f) = start f"
    by (simp add: A SetProperties_fields f3)
  show "has_error K (props (ArcMap_inplace K m f))"
    if "?fa = MAP_NO_SUPERFINAL"
      and "\<exists>i < length (states f). nonzero_labels (mapped_final m (states f ! i))"
  proof -
    have "props ?g = props f OR kError K"
      using that by simp
    then have "has_error K (props ?g)"
      by (auto simp: has_error_def bit_eq_iff bit_simps)
    then show ?thesis
      unfolding A SetProperties_fields by (rule set_props_mask_keeps_error)
  qed
qed

lemma require_superfinal_shapeI:
  fixes m :: "('a, 'b::{zero,one}) ArcMapper"
  assumes "states r = map (eager_state m MAP_REQUIRE_SUPERFINAL (NumStates f)) (states f) @ [superfinal_state]"
    and "(0::'b) \<noteq> 1"
  shows "require_superfinal_shape m f r"
proof -
  have "filter (\<lambda>st. final st = (1::'b)) (map (eager_state m MAP_REQUIRE_SUPERFINAL (NumStates f)) xs) = []" for xs
    using assms(2) by (induction xs) (simp_all add: eager_state_def)
  then show ?thesis
    unfolding require_superfinal_shape_def assms(1)
    by (auto simp: nth_append superfinal_state_def eager_state_def nonzero_labels_def)
qed

text \<open>
  C2. For an automaton with a start state and a mapper with the require-superfinal
  policy, the result of the copying \<open>ArcMap\<close> and the result of the in-place \<open>ArcMap\<close> have
  the shape above (for a weight type in which \<^verbatim>\<open>Zero()\<close> and \<^verbatim>\<open>One()\<close> differ): exactly one state,
  the superfinal state, has final weight \<^verbatim>\<open>One()\<close>, every other state has final weight \<^verbatim>\<open>Zero()\<close>
  and gains one arc into the superfinal state unless its mapped pseudo-arc has epsilon
  labels and weight \<^verbatim>\<open>Zero()\<close>; nothing is asked of the final weights of the input, so the
  superfinal state is there also when no state is final.
\<close>

theorem require_superfinal_result:
  fixes m :: "('a, 'b::{zero,one}) ArcMapper" and mi :: "('b, 'b) ArcMapper"
  assumes "(0::'b) \<noteq> 1"
    and "start f \<noteq> kNoStateId" and "FinalAction m = MAP_REQUIRE_SUPERFINAL"
    and "start fi \<noteq> kNoStateId" and "FinalAction mi = MAP_REQUIRE_SUPERFINAL"
  shows "require_superfinal_shape m f (ArcMap_copy K m f ofst) \<and>
         require_superfinal_shape mi fi (ArcMap_inplace K mi fi)"
proof
  show "require_superfinal_shape m f (ArcMap_copy K m f ofst)"
    using ArcMap_copy_result(1) [OF assms(2), of m K ofst] assms(1,3)
    by (intro require_superfinal_shapeI) simp_all
  show "require_superfinal_shape mi fi (ArcMap_inplace K mi fi)"
    using ArcMap_inplace_result(1) [OF assms(4), of mi K] assms(1,5)
    by (intro require_superfinal_shapeI) simp_all
qed

theorem require_superfinal_result_witness:
  "((0::int) \<noteq> 1 \<and> start nonfinal_fst \<noteq> kNoStateId \<and>
    FinalAction (SuperFinalMapper 0 0 0 :: (int, int) ArcMapper) = MAP_REQUIRE_SUPERFINAL \<and>
    start line_fst \<noteq> kNoStateId) \<and>
   require_superfinal_shape (SuperFinalMapper 0 0 0) nonfinal_fst
     (ArcMap_copy example_consts (SuperFinalMapper 0 0 0) nonfinal_fst empty_fst) \<and>
   require_superfinal_shape (SuperFinalMapper 0 0 0) line_fst
     (ArcMap_inplace example_consts (SuperFinalMapper 0 0 0) line_fst)"
proof -
  have h: "(0::int) \<noteq> 1 \<and> start nonfinal_fst \<noteq> kNoStateId \<and>
    FinalAction (SuperFinalMapper 0 0 0 :: (int, int) ArcMapper) = MAP_REQUIRE_SUPERFINAL \<and>
    start line_fst \<noteq> kNoStateId"
    by code_simp
  from h require_superfinal_result [of nonfinal_fst "SuperFinalMapper 0 0 0" line_fst
      "SuperFinalMapper 0 0 0" example_consts empty_fst]
  show ?thesis by blast
qed

lemma require_superfinal_examples:
  "states (ArcMap_copy example_consts (SuperFinalMapper 0 0 0) nonfinal_fst empty_fst) =
     [\<lparr>final = 0, arcs = [Arc 1 1 1 0]\<rparr>, \<lparr>final = 1, arcs = []\<rparr>] \<and>
   states (ArcMap_inplace example_consts (SuperFinalMapper 0 0 0) line_fst) =
     [\<lparr>final = 0, arcs = [Arc 1 2 1 1]\<rparr>, \<lparr>final = 0, arcs = [Arc 0 0 1 2]\<rparr>,
      \<lparr>final = 1, arcs = []\<rparr>]"
  by code_simp

lemma Final_HasFinal_sub:
  "HasFinal (snd (Final K w s)) t \<Longrightarrow> t = s \<or> HasFinal w t"
  by (cases "HasFinal w s")
     (auto simp: Final_cached HasFinal_def Final_uncached_store split: if_splits)

lemma Final_HasFinal: "HasFinal (snd (Final K w s)) s"
  by (cases "HasFinal w s") (auto simp: Final_cached HasFinal_def Final_uncached_store)

lemma Final_error_recorded:
  assumes "impl_final_action w = MAP_NO_SUPERFINAL" and "error_recorded K w"
  shows "error_recorded K (snd (Final K w s))"
  unfolding error_recorded_def
proof (intro allI impI)
  fix t
  let ?w' = "snd (Final K w s)"
  assume a: "HasFinal ?w' t \<and> nonzero_labels (mapped_final_arc ?w' t)"
  have mf: "mapped_final_arc ?w' t = mapped_final_arc w t"
    by (rule same_view_lazy(4) [OF Final_same_view])
  show "has_error K (impl_properties ?w')"
  proof (cases "HasFinal w t")
    case True
    with a assms(2) have "has_error K (impl_properties w)"
      by (auto simp: error_recorded_def mf)
    then show ?thesis
      by (simp add: Final_properties set_props_mask_keeps_error)
  next
    case False
    with a Final_HasFinal_sub [of K w s t] have ts: "t = s"
      by auto
    have "nonzero_labels (mapped_final_arc w t)"
      using a by (simp add: mf)
    with ts False assms(1) show ?thesis
      by (simp add: Final_properties set_props_mask_sets_error)
  qed
qed

lemma ArcIterator_HasFinal_sub:
  assumes "coherent w" and "quiet w s" and "HasFinal (snd (ArcIterator K w s)) t"
  shows "HasFinal w t"
proof (cases "HasArcs w s")
  case True
  with assms(3) show ?thesis by (simp add: ArcIterator_cached)
next
  case False
  from assms(3) have H: "HasFinal (Expand K w s) t"
    using False by (simp add: ArcIterator_def Let_def)
  show ?thesis
  proof (cases "t = s")
    case True
    with H show ?thesis
      by (simp add: HasFinal_entry Expand_quiet(2) [OF assms(1,2) False])
  next
    case ne: False
    with H Expand_quiet(3) [OF assms(1,2) False, of t K] show ?thesis
      by (auto simp: HasFinal_def)
  qed
qed

lemma ArcIterator_error_recorded:
  assumes "coherent w" and "quiet w s" and "error_recorded K w"
  shows "error_recorded K (snd (ArcIterator K w s))"
  unfolding error_recorded_def
proof (intro allI impI)
  fix t
  let ?w' = "snd (ArcIterator K w s)"
  assume a: "HasFinal ?w' t \<and> nonzero_labels (mapped_final_arc ?w' t)"
  have mf: "mapped_final_arc ?w' t = mapped_final_arc w t"
    by (rule same_view_lazy(4) [OF ArcIterator_result(3) [OF assms(1,2)]])
  from a have "HasFinal w t"
    using ArcIterator_HasFinal_sub [OF assms(1,2)] by blast
  with a assms(3) show "has_error K (impl_properties ?w')"
    by (auto simp: error_recorded_def mf ArcIterator_fields)
qed

lemma Start_error_recorded: "error_recorded K w \<Longrightarrow> error_recorded K (snd (Start w))"
  using mapped_final_arc_cong [of "snd (Start w)" w]
  by (simp add: error_recorded_def HasFinal_def Start_fields)

text \<open>What stays true of a wrapper without superfinal state whatever is asked of it.\<close>

lemma run_queries_no_superfinal:
  assumes "impl_final_action w = MAP_NO_SUPERFINAL" and "coherent w" and "error_recorded K w"
  shows "coherent (run_queries K w qs) \<and> error_recorded K (run_queries K w qs)"
  using assms
proof (induction qs arbitrary: w)
  case Nil
  then show ?case by (simp add: run_queries_Nil)
next
  case (Cons q qs)
  have q: "\<And>s. quiet w s"
    using Cons.prems(1) by (simp add: quiet_def)
  have "coherent (run_query K w q) \<and> error_recorded K (run_query K w q)"
  proof (cases q)
    case Q_Start
    then show ?thesis
      using Cons.prems by (simp add: Start_coherent Start_error_recorded)
  next
    case (Q_Final s)
    then show ?thesis
      using Cons.prems by (simp add: Final_coherent Final_error_recorded)
  next
    case (Q_Arcs s)
    then show ?thesis
      using Cons.prems q by (simp add: ArcIterator_result(2) ArcIterator_error_recorded)
  qed
  then show ?case
    using Cons.prems(1) by (simp add: run_queries_Cons Cons.IH run_query_fields)
qed

lemma run_query_properties:
  "impl_properties (run_query K w q) =
     (case q of Q_Final s \<Rightarrow> impl_properties (snd (Final K w s)) | _ \<Rightarrow> impl_properties w)"
  by (cases q) (simp_all add: Start_fields ArcIterator_fields)

text \<open>
  Without a \<open>Final\<close> query on a state whose pseudo-arc is mapped to a labelled arc, the
  property mask of a wrapper without superfinal state stays what it is.
\<close>

lemma run_queries_properties_unchanged:
  assumes "impl_final_action w = MAP_NO_SUPERFINAL" and "impl_superfinal w = kNoStateId"
    and "\<forall>t. Q_Final t \<in> set qs \<longrightarrow> \<not> nonzero_labels (mapped_final_arc w t)"
  shows "impl_properties (run_queries K w qs) = impl_properties w"
  using assms
proof (induction qs arbitrary: w)
  case Nil
  then show ?case by (simp add: run_queries_Nil)
next
  case (Cons q qs)
  have na: "impl_final_action w \<noteq> MAP_ALLOW_SUPERFINAL"
    using Cons.prems(1) by simp
  have sv: "same_view (run_query K w q) w"
    using run_queries_same_view [OF na, of K "[q]"] by (simp add: run_queries_Cons run_queries_Nil)
  have 1: "impl_properties (run_query K w q) = impl_properties w"
    using Cons.prems(3) by (cases q) (simp_all add: Start_fields ArcIterator_fields Final_properties)
  have 2: "\<forall>t. Q_Final t \<in> set qs \<longrightarrow> \<not> nonzero_labels (mapped_final_arc (run_query K w q) t)"
    using Cons.prems(3) by (simp add: same_view_lazy(4) [OF sv])
  have "impl_properties (run_queries K (run_query K w q) qs) = impl_properties (run_query K w q)"
    by (rule Cons.IH [OF _ _ 2])
       (use Cons.prems(1,2) sv in \<open>simp_all add: run_query_fields same_view_def\<close>)
  then show ?case
    by (simp add: run_queries_Cons 1)
qed

lemma mapped_final_arc_no_superfinal:
  "impl_superfinal w = kNoStateId \<Longrightarrow>
   mapped_final_arc w t = mapped_final (impl_mapper w) (states (impl_fst w) ! nat t)"
  by (simp add: mapped_final_arc_def mapped_final_def FindIState_def fst_Final_def)

lemma ArcMapFst_error_recorded: "error_recorded K (ArcMapFst K f m opts)"
  by (simp add: error_recorded_def HasFinal_def ArcMapFst_fields)

text \<open>
  C6. Let the mapper declare \<open>MAP_NO_SUPERFINAL\<close> and map the pseudo-arc of the final weight
  of a state \<open>s\<close> of the input to an arc with a label that is not epsilon.
  Eagerly: the round of the loop that processes \<open>s\<close> sets the error bit, in the copying
  and in the in-place algorithm, and for an input with a start state the result carries
  the error bit and has the mapped weight as the final weight of \<open>s\<close>.
  Lazily: the property mask after construction is computed from the start state, the
  mapper's \<open>Properties\<close> and the input's mask only, not from any final weight; as long as
  no \<open>Final\<close> query is made on a state whose pseudo-arc is mapped to a labelled arc, the
  mask stays what it was at construction; and after any queries, \<open>Final\<close> on \<open>s\<close> leaves the
  error bit set and returns the mapped weight, which is then the cached final weight.
\<close>

theorem no_superfinal_labelled_final:
  fixes m :: "('a, 'b::{zero,one}) ArcMapper" and mi :: "('b, 'b) ArcMapper"
  assumes "FinalAction m = MAP_NO_SUPERFINAL" and "valid_state f s"
    and "nonzero_labels (mapped_final m (states f ! nat s))"
    and "FinalAction mi = MAP_NO_SUPERFINAL" and "valid_state fi si"
    and "nonzero_labels (mapped_final mi (states fi ! nat si))"
  shows
    "has_error K (props (fst (ArcMap_copy_state K m MAP_NO_SUPERFINAL f (o1, sf) s))) \<and>
     (start f \<noteq> kNoStateId \<longrightarrow>
        has_error K (props (ArcMap_copy K m f ofst)) \<and>
        fst_Final (ArcMap_copy K m f ofst) s = weight (mapped_final m (states f ! nat s))) \<and>
     has_error K (props (fst (ArcMap_inplace_state K mi MAP_NO_SUPERFINAL (fi, sfi) si))) \<and>
     (start fi \<noteq> kNoStateId \<longrightarrow>
        has_error K (props (ArcMap_inplace K mi fi)) \<and>
        fst_Final (ArcMap_inplace K mi fi) si = weight (mapped_final mi (states fi ! nat si))) \<and>
     impl_properties (ArcMapFst K f m opts) =
       (if start f = kNoStateId then kNullProperties K
        else Properties m (fst_Properties f (kCopyProperties K))) \<and>
     ((\<forall>t. Q_Final t \<in> set qs \<longrightarrow> \<not> nonzero_labels (mapped_final m (states f ! nat t))) \<longrightarrow>
        impl_properties (run_queries K (ArcMapFst K f m opts) qs) =
          impl_properties (ArcMapFst K f m opts)) \<and>
     has_error K (impl_properties (snd (Final K (run_queries K (ArcMapFst K f m opts) qs') s))) \<and>
     fst (Final K (run_queries K (ArcMapFst K f m opts) qs') s) =
       weight (mapped_final m (states f ! nat s)) \<and>
     HasFinal (snd (Final K (run_queries K (ArcMapFst K f m opts) qs') s)) s \<and>
     Cache_Final (snd (Final K (run_queries K (ArcMapFst K f m opts) qs') s)) s =
       weight (mapped_final m (states f ! nat s))"
proof -
  have n: "nat s < length (states f)" "nat si < length (states fi)"
    using assms(2,5) by (auto simp: valid_state_def NumStates_def)
  have c1: "has_error K (props (fst (ArcMap_copy_state K m MAP_NO_SUPERFINAL f (o1, sf) s)))"
    using assms(3)
    by (simp add: ArcMap_copy_state_def Let_def SetFinal_fields SetProperties_fields
        set_props_mask_sets_error mapped_final_def fst_Final_def)
  have c2: "has_error K (props (ArcMap_copy K m f ofst)) \<and>
        fst_Final (ArcMap_copy K m f ofst) s = weight (mapped_final m (states f ! nat s))"
    if st: "start f \<noteq> kNoStateId"
  proof -
    have q: "FinalAction m = MAP_ALLOW_SUPERFINAL \<longrightarrow> no_labelled_final f m"
      using assms(1) by simp
    have "has_error K (props (ArcMap_copy K m f ofst))"
      using ArcMap_copy_result(3) [OF st q assms(1)] assms(3) n(1) by blast
    moreover have "fst_Final (ArcMap_copy K m f ofst) s = weight (mapped_final m (states f ! nat s))"
      using n(1) assms(1)
      by (simp add: fst_Final_def ArcMap_copy_result(1) [OF st q] nth_append eager_state_def)
    ultimately show ?thesis ..
  qed
  have i1: "has_error K (props (fst (ArcMap_inplace_state K mi MAP_NO_SUPERFINAL (fi, sfi) si)))"
    using assms(6) n(2)
    by (simp add: ArcMap_inplace_state_def Let_def SetFinal_fields SetProperties_fields
        set_props_mask_sets_error mapped_final_def fst_Final_def map_arcs_inplace_def)
  have i2: "has_error K (props (ArcMap_inplace K mi fi)) \<and>
        fst_Final (ArcMap_inplace K mi fi) si = weight (mapped_final mi (states fi ! nat si))"
    if st: "start fi \<noteq> kNoStateId"
  proof -
    have q: "FinalAction mi = MAP_ALLOW_SUPERFINAL \<longrightarrow> no_labelled_final fi mi"
      using assms(4) by simp
    have "has_error K (props (ArcMap_inplace K mi fi))"
      using ArcMap_inplace_result(3) [OF st q assms(4)] assms(6) n(2) by blast
    moreover have "fst_Final (ArcMap_inplace K mi fi) si = weight (mapped_final mi (states fi ! nat si))"
      using n(2) assms(4)
      by (simp add: fst_Final_def ArcMap_inplace_result(1) [OF st q] nth_append eager_state_def)
    ultimately show ?thesis ..
  qed
  let ?v = "ArcMapFst K f m opts"
  have fa: "impl_final_action ?v = MAP_NO_SUPERFINAL"
    using assms(1) by (simp add: ArcMapFst_fields)
  have sf: "impl_superfinal ?v = kNoStateId"
    using assms(1) by (simp add: Init_superfinal)
  have mf: "\<And>t. mapped_final_arc ?v t = mapped_final m (states f ! nat t)"
    by (simp add: mapped_final_arc_no_superfinal [OF sf] ArcMapFst_fields)
  have l2: "impl_properties (run_queries K ?v qs) = impl_properties ?v"
    if "\<forall>t. Q_Final t \<in> set qs \<longrightarrow> \<not> nonzero_labels (mapped_final m (states f ! nat t))"
    by (rule run_queries_properties_unchanged [OF fa sf]) (use that in \<open>simp add: mf\<close>)
  let ?w = "run_queries K ?v qs'"
  have inv: "coherent ?w \<and> error_recorded K ?w"
    by (rule run_queries_no_superfinal [OF fa ArcMapFst_coherent ArcMapFst_error_recorded])
  have sv: "same_view ?w ?v"
    by (rule run_queries_same_view) (simp add: fa)
  have faw: "impl_final_action ?w = MAP_NO_SUPERFINAL"
    using sv fa by (simp add: same_view_def)
  have mfw: "mapped_final_arc ?w s = mapped_final m (states f ! nat s)"
    by (simp add: same_view_lazy(4) [OF sv] mf)
  have er: "error_recorded K (snd (Final K ?w s))"
    using inv faw by (simp add: Final_error_recorded)
  have l3: "has_error K (impl_properties (snd (Final K ?w s)))"
    using er Final_HasFinal [of K ?w s] assms(3) mfw
    by (auto simp: error_recorded_def same_view_lazy(4) [OF Final_same_view])
  have l4: "fst (Final K ?w s) = weight (mapped_final m (states f ! nat s))"
    using inv by (simp add: Final_result lazy_final_def faw mfw)
  have l5: "Cache_Final (snd (Final K ?w s)) s = fst (Final K ?w s)"
    by (simp add: Final_def Let_def)
  show ?thesis
    using c1 c2 i1 i2 l2 l3 l4 l5 Final_HasFinal [of K ?w s]
    by (simp add: ArcMapFst_fields)
qed

theorem no_superfinal_labelled_final_witness:
  "(FinalAction labelling_mapper = MAP_NO_SUPERFINAL \<and> valid_state line_fst 1 \<and>
    nonzero_labels (mapped_final labelling_mapper (states line_fst ! nat 1)) \<and>
    start line_fst \<noteq> kNoStateId) \<and>
   has_error example_consts (props (ArcMap_copy example_consts labelling_mapper line_fst empty_fst)) \<and>
   fst_Final (ArcMap_copy example_consts labelling_mapper line_fst empty_fst) 1 =
     weight (mapped_final labelling_mapper (states line_fst ! nat 1)) \<and>
   has_error example_consts (props (ArcMap_inplace example_consts labelling_mapper line_fst)) \<and>
   impl_properties
     (run_queries example_consts
        (ArcMapFst example_consts line_fst labelling_mapper ArcMapFstOptions) [Q_Start, Q_Arcs 1]) =
     impl_properties (ArcMapFst example_consts line_fst labelling_mapper ArcMapFstOptions) \<and>
   has_error example_consts
     (impl_properties (snd (Final example_consts
        (run_queries example_consts
           (ArcMapFst example_consts line_fst labelling_mapper ArcMapFstOptions)
           [Q_Start, Q_Arcs 1, Q_Final 0]) 1)))"
proof -
  have h: "FinalAction labelling_mapper = MAP_NO_SUPERFINAL \<and> valid_state line_fst 1 \<and>
    nonzero_labels (mapped_final labelling_mapper (states line_fst ! nat 1)) \<and>
    start line_fst \<noteq> kNoStateId"
    by code_simp
  have h2: "\<forall>t. Q_Final t \<in> set [Q_Start, Q_Arcs 1] \<longrightarrow>
       \<not> nonzero_labels (mapped_final labelling_mapper (states line_fst ! nat t))"
    by simp
  from h h2 no_superfinal_labelled_final [where m = labelling_mapper and f = line_fst and s = 1
      and mi = labelling_mapper and fi = line_fst and si = 1 and K = example_consts
      and ofst = empty_fst and opts = ArcMapFstOptions and qs = "[Q_Start, Q_Arcs 1]"
      and qs' = "[Q_Start, Q_Arcs 1, Q_Final 0]"]
  show ?thesis by blast
qed

lemma no_superfinal_examples:
  "\<not> has_error example_consts
      (impl_properties (ArcMapFst example_consts line_fst labelling_mapper ArcMapFstOptions)) \<and>
   \<not> has_error example_consts (props line_fst) \<and>
   fst_Final (ArcMap_copy example_consts labelling_mapper line_fst empty_fst) 1 = 1"
  by code_simp

lemma settled_cong: "same_view w' w \<Longrightarrow> settled w' = settled w"
  by (simp add: settled_def same_view_def)

lemma expand_all_start: "start (expand_all K w) = fst (Start w)"
  by (simp add: expand_all_def case_prod_beta)

text \<open>What a client reads off a coherent wrapper that never moves its superfinal state.\<close>

lemma expand_all_states:
  assumes "coherent w" and "settled w"
  shows "states (expand_all K w) =
     map (\<lambda>s. \<lparr>final = lazy_final w s, arcs = lazy_arcs w s\<rparr>)
       (map int [0 ..< length (states (impl_fst w))] @
        (if impl_final_action w = MAP_REQUIRE_SUPERFINAL then [int (length (states (impl_fst w)))] else []))"
proof -
  let ?w1 = "snd (Start w)"
  let ?ids = "map int [0 ..< length (states (impl_fst w))] @
        (if impl_final_action w = MAP_REQUIRE_SUPERFINAL then [int (length (states (impl_fst w)))] else [])"
  have sv: "same_view ?w1 w"
    by (rule Start_same_view)
  have c1: "coherent ?w1"
    by (rule Start_coherent) fact
  have s1: "settled ?w1"
    using assms(2) by (simp add: settled_cong [OF sv])
  have ids: "SI_values ?w1 (StateIterator ?w1) = ?ids"
    using sv by (simp add: SI_values_settled [OF s1] same_view_def)
  have q: "\<forall>s \<in> set ?ids. quiet ?w1 s"
  proof
    fix s
    assume "s \<in> set ?ids"
    then have "impl_final_action ?w1 = MAP_ALLOW_SUPERFINAL \<longrightarrow> valid_state (impl_fst ?w1) s"
      using sv by (auto simp: valid_state_def NumStates_def same_view_def)
    then show "quiet ?w1 s"
      by (rule settled_quiet [OF s1])
  qed
  have "fst (visit_states K ?w1 ?ids) =
      map (\<lambda>s. \<lparr>final = lazy_final ?w1 s, arcs = lazy_arcs ?w1 s\<rparr>) ?ids"
    using visit_states_result [OF c1 q] by simp
  then show ?thesis
    by (simp add: expand_all_def case_prod_beta ids same_view_lazy [OF sv])
qed

lemma map_int_upt_Suc: "map int [0 ..< n] @ [int n] = 0 # map (\<lambda>i. int i + 1) [0 ..< n]"
proof -
  have "map int [0 ..< n] @ [int n] = map int [0 ..< Suc n]"
    by simp
  also have "\<dots> = map int (0 # map Suc [0 ..< n])"
    by (simp only: upt_rec [of 0 "Suc n"] map_Suc_upt) simp
  finally show ?thesis
    by (simp add: o_def)
qed

lemma map_nth_eq:
  assumes "\<And>i. i < length xs \<Longrightarrow> g i = h (xs ! i)"
  shows "map g [0 ..< length xs] = map h xs"
  using assms by (intro nth_equalityI) simp_all

lemma wellformed_arc:
  assumes "wellformed f" and "i < length (states f)" and "a \<in> set (arcs (states f ! i))"
  shows "0 \<le> nextstate a" and "nextstate a < NumStates f"
  using assms by (auto simp: wellformed_def list_all_iff valid_state_def)

lemma nextstate_invariant_copy:
  assumes "nextstate_invariant m" and "0 \<le> nextstate a"
  shows "nextstate (map_arc m a) = nextstate a"
proof -
  have "map_arc m (a\<lparr>nextstate := nextstate a\<rparr>) = (map_arc m a)\<lparr>nextstate := nextstate a\<rparr>"
    using assms unfolding nextstate_invariant_def by blast
  then have "map_arc m a = (map_arc m a)\<lparr>nextstate := nextstate a\<rparr>"
    by simp
  then have "nextstate (map_arc m a) = nextstate ((map_arc m a)\<lparr>nextstate := nextstate a\<rparr>)"
    by simp
  then show ?thesis by simp
qed

text \<open>A state of the wrapper without superfinal state is the state the eager algorithm makes.\<close>

lemma lazy_state_no_superfinal:
  assumes "impl_superfinal w = kNoStateId" and "impl_final_action w \<noteq> MAP_REQUIRE_SUPERFINAL"
    and "impl_final_action w = MAP_ALLOW_SUPERFINAL \<longrightarrow>
           \<not> nonzero_labels (mapped_final (impl_mapper w) (states (impl_fst w) ! i))"
  shows "\<lparr>final = lazy_final w (int i), arcs = lazy_arcs w (int i)\<rparr> =
           eager_state (impl_mapper w) (impl_final_action w) n (states (impl_fst w) ! i)"
proof -
  have mf: "mapped_final_arc w (int i) = mapped_final (impl_mapper w) (states (impl_fst w) ! i)"
    using assms(1) by (simp add: mapped_final_arc_no_superfinal)
  have id: "(\<lambda>a. map_arc (impl_mapper w) (a\<lparr>nextstate := fst (FindOState w (nextstate a))\<rparr>)) =
      map_arc (impl_mapper w)"
    using assms(1) by (simp add: FindOState_fst)
  show ?thesis
    using assms
    by (cases "impl_final_action w")
       (simp_all add: lazy_final_def lazy_arcs_def eager_state_def mf id FindIState_def fst_Arcs_def)
qed

text \<open>
  A state of the wrapper with the superfinal state at index 0 is the renumbered state
  the eager algorithm makes.
\<close>

lemma lazy_state_require_superfinal:
  assumes "impl_superfinal w = 0" and "impl_final_action w = MAP_REQUIRE_SUPERFINAL"
    and "nextstate_invariant (impl_mapper w)" and "wellformed (impl_fst w)"
    and "i < length (states (impl_fst w))"
  shows "\<lparr>final = lazy_final w (int i + 1), arcs = lazy_arcs w (int i + 1)\<rparr> =
           to_lazy_state (NumStates (impl_fst w))
             (eager_state (impl_mapper w) MAP_REQUIRE_SUPERFINAL (NumStates (impl_fst w))
                (states (impl_fst w) ! i))"
proof -
  let ?m = "impl_mapper w" and ?st = "states (impl_fst w) ! i" and ?n = "NumStates (impl_fst w)"
  have fi: "FindIState w (int i + 1) = int i"
    using assms(1) by (simp add: FindIState_def)
  have mf: "mapped_final_arc w (int i + 1) = mapped_final ?m ?st"
    by (simp add: mapped_final_arc_def mapped_final_def fi fst_Final_def)
  have arc: "map_arc ?m (a\<lparr>nextstate := fst (FindOState w (nextstate a))\<rparr>) =
      (map_arc ?m a)\<lparr>nextstate := to_lazy_id ?n (nextstate (map_arc ?m a))\<rparr>"
    if "a \<in> set (arcs ?st)" for a
  proof -
    have r: "0 \<le> nextstate a" "nextstate a < ?n"
      using wellformed_arc [OF assms(4,5) that] by simp_all
    have "map_arc ?m (a\<lparr>nextstate := nextstate a + 1\<rparr>) = (map_arc ?m a)\<lparr>nextstate := nextstate a + 1\<rparr>"
      using assms(3) r(1) unfolding nextstate_invariant_def by simp
    then show ?thesis
      using r assms(1) by (simp add: FindOState_fst nextstate_invariant_copy [OF assms(3)] to_lazy_id_def)
  qed
  have arcs: "map (\<lambda>a. map_arc ?m (a\<lparr>nextstate := fst (FindOState w (nextstate a))\<rparr>)) (arcs ?st) =
      map (\<lambda>a. a\<lparr>nextstate := to_lazy_id ?n (nextstate a)\<rparr>) (map (map_arc ?m) (arcs ?st))"
    using arc by simp
  show ?thesis
    using assms(1,2)
    by (simp add: lazy_final_def lazy_arcs_def eager_state_def to_lazy_state_def mf fi fst_Arcs_def
        arcs to_lazy_id_def Arc_def)
qed

lemma lazy_superfinal_state:
  assumes "impl_superfinal w = 0" and "impl_final_action w = MAP_REQUIRE_SUPERFINAL"
  shows "\<lparr>final = lazy_final w 0, arcs = lazy_arcs w 0\<rparr> = superfinal_state"
  using assms by (simp add: lazy_final_def lazy_arcs_def superfinal_state_def)

lemma ArcMapFst_Start:
  "fst (Start (ArcMapFst K f m opts)) = fst (FindOState (ArcMapFst K f m opts) (start f))"
  by (simp add: Start_value ArcMapFst_fields)

lemma ArcMap_copy_no_start:
  "start f = kNoStateId \<Longrightarrow>
   states (ArcMap_copy K m f ofst) = [] \<and> start (ArcMap_copy K m f ofst) = kNoStateId"
  by (simp add: ArcMap_copy_def Let_def DeleteStates_def SetInputSymbols_def SetOutputSymbols_def
      SetProperties_def)

text \<open>
  C1, as amended. Let the wrapper be read in full: \<open>Start\<close>, and the final weight and the
  arcs of every state the state iterator yields.
  For an input with a valid start state and a mapper that declares \<open>MAP_NO_SUPERFINAL\<close>,
  or \<open>MAP_ALLOW_SUPERFINAL\<close> when no final weight is mapped to a labelled pseudo-arc, the
  copying \<open>ArcMap\<close> and the wrapper give the same start state and the same list of states:
  the same state count, final weights and arc lists.
  For a well-formed input with a valid start state and a mapper that declares
  \<open>MAP_REQUIRE_SUPERFINAL\<close> and copies the next state of an arc, the two give the same
  state count, and the same automaton up to the position of the superfinal state: the
  eager result has it last, the wrapper has it at index 0, and the start state, the
  states and the next states of the arcs of the wrapper are those of the eager result
  renumbered by \<open>to_lazy_id\<close>.
  For an input without start state both have no start state; the eager result has no
  states, the wrapper has as many as the input.
\<close>

theorem eager_lazy_equivalence:
  fixes m mr me :: "('a, 'b::{zero,one}) ArcMapper"
  shows
  "(valid_state f (start f) \<and>
    (FinalAction m = MAP_NO_SUPERFINAL \<or>
     FinalAction m = MAP_ALLOW_SUPERFINAL \<and> no_labelled_final f m) \<longrightarrow>
      start (expand_all K (ArcMapFst K f m opts)) = start (ArcMap_copy K m f ofst) \<and>
      states (expand_all K (ArcMapFst K f m opts)) = states (ArcMap_copy K m f ofst)) \<and>
   (valid_state fr (start fr) \<and> FinalAction mr = MAP_REQUIRE_SUPERFINAL \<and>
    nextstate_invariant mr \<and> wellformed fr \<longrightarrow>
      start (expand_all K (ArcMapFst K fr mr opts)) =
        to_lazy_id (NumStates fr) (start (ArcMap_copy K mr fr ofst)) \<and>
      length (states (expand_all K (ArcMapFst K fr mr opts))) =
        length (states (ArcMap_copy K mr fr ofst)) \<and>
      states (expand_all K (ArcMapFst K fr mr opts)) =
        superfinal_state #
        map (to_lazy_state (NumStates fr)) (take (length (states fr)) (states (ArcMap_copy K mr fr ofst))) \<and>
      states (ArcMap_copy K mr fr ofst) ! length (states fr) = superfinal_state) \<and>
   (start fe = kNoStateId \<longrightarrow>
      start (expand_all K (ArcMapFst K fe me opts)) = kNoStateId \<and>
      start (ArcMap_copy K me fe ofst) = kNoStateId \<and>
      states (ArcMap_copy K me fe ofst) = [] \<and>
      length (states (expand_all K (ArcMapFst K fe me opts))) = length (states fe))"
proof (intro conjI impI)
  assume a: "valid_state f (start f) \<and>
    (FinalAction m = MAP_NO_SUPERFINAL \<or>
     FinalAction m = MAP_ALLOW_SUPERFINAL \<and> no_labelled_final f m)"
  let ?w = "ArcMapFst K f m opts"
  from a have st: "start f \<noteq> kNoStateId" and v: "valid_state f (start f)"
    by (auto simp: valid_state_def)
  from a have q: "FinalAction m = MAP_ALLOW_SUPERFINAL \<longrightarrow> no_labelled_final f m"
    and nr: "FinalAction m \<noteq> MAP_REQUIRE_SUPERFINAL"
    by auto
  have sf: "impl_superfinal ?w = kNoStateId"
    using nr by (simp add: Init_superfinal)
  have fa: "impl_final_action ?w = FinalAction m"
    using st by (simp add: ArcMapFst_fields)
  have se: "settled ?w"
    using q by (simp add: settled_def sf fa ArcMapFst_fields)
  show "start (expand_all K ?w) = start (ArcMap_copy K m f ofst)"
    using v by (simp add: expand_all_start ArcMapFst_Start FindOState_fst sf
        ArcMap_copy_result(2) [OF st q])
  have "states (expand_all K ?w) =
      map (\<lambda>i. \<lparr>final = lazy_final ?w (int i), arcs = lazy_arcs ?w (int i)\<rparr>) [0 ..< length (states f)]"
    using nr st by (simp add: expand_all_states [OF ArcMapFst_coherent se] ArcMapFst_fields o_def)
  also have "\<dots> = map (eager_state m (FinalAction m) (NumStates f)) (states f)"
  proof (rule map_nth_eq)
    fix i
    assume i: "i < length (states f)"
    have "impl_final_action ?w = MAP_ALLOW_SUPERFINAL \<longrightarrow>
           \<not> nonzero_labels (mapped_final (impl_mapper ?w) (states (impl_fst ?w) ! i))"
      using q i by (simp add: fa ArcMapFst_fields no_labelled_final_mapped)
    moreover have "impl_final_action ?w \<noteq> MAP_REQUIRE_SUPERFINAL"
      using nr by (simp add: fa)
    ultimately have "\<lparr>final = lazy_final ?w (int i), arcs = lazy_arcs ?w (int i)\<rparr> =
        eager_state (impl_mapper ?w) (impl_final_action ?w) (NumStates f) (states (impl_fst ?w) ! i)"
      using lazy_state_no_superfinal [OF sf, of i "NumStates f"] by blast
    then show "\<lparr>final = lazy_final ?w (int i), arcs = lazy_arcs ?w (int i)\<rparr> =
        eager_state m (FinalAction m) (NumStates f) (states f ! i)"
      by (simp only: fa ArcMapFst_fields(1,2))
  qed
  finally show "states (expand_all K ?w) = states (ArcMap_copy K m f ofst)"
    using nr by (simp add: ArcMap_copy_result(1) [OF st q])
next
  assume a: "valid_state fr (start fr) \<and> FinalAction mr = MAP_REQUIRE_SUPERFINAL \<and>
    nextstate_invariant mr \<and> wellformed fr"
  let ?w = "ArcMapFst K fr mr opts"
  let ?n = "NumStates fr"
  from a have st: "start fr \<noteq> kNoStateId" and v: "valid_state fr (start fr)"
    and rq: "FinalAction mr = MAP_REQUIRE_SUPERFINAL" and ni: "nextstate_invariant mr"
    and wf: "wellformed fr"
    by (auto simp: valid_state_def)
  have q: "FinalAction mr = MAP_ALLOW_SUPERFINAL \<longrightarrow> no_labelled_final fr mr"
    using rq by simp
  have sf: "impl_superfinal ?w = 0"
    using st rq by (simp add: Init_superfinal)
  have fa: "impl_final_action ?w = MAP_REQUIRE_SUPERFINAL"
    using st rq by (simp add: ArcMapFst_fields)
  have se: "settled ?w"
    by (simp add: settled_def fa)
  have eager: "states (ArcMap_copy K mr fr ofst) =
      map (eager_state mr MAP_REQUIRE_SUPERFINAL ?n) (states fr) @ [superfinal_state]"
    using rq by (simp add: ArcMap_copy_result(1) [OF st q])
  show "start (expand_all K ?w) = to_lazy_id ?n (start (ArcMap_copy K mr fr ofst))"
    using v by (simp add: expand_all_start ArcMapFst_Start FindOState_fst sf
        ArcMap_copy_result(2) [OF st q] to_lazy_id_def valid_state_def)
  have "states (expand_all K ?w) =
      map (\<lambda>s. \<lparr>final = lazy_final ?w s, arcs = lazy_arcs ?w s\<rparr>)
        (map int [0 ..< length (states fr)] @ [int (length (states fr))])"
    using st rq by (simp add: expand_all_states [OF ArcMapFst_coherent se] ArcMapFst_fields)
  also have "\<dots> = \<lparr>final = lazy_final ?w 0, arcs = lazy_arcs ?w 0\<rparr> #
      map (\<lambda>i. \<lparr>final = lazy_final ?w (int i + 1), arcs = lazy_arcs ?w (int i + 1)\<rparr>)
        [0 ..< length (states fr)]"
    by (simp only: map_int_upt_Suc) (simp add: o_def)
  also have "map (\<lambda>i. \<lparr>final = lazy_final ?w (int i + 1), arcs = lazy_arcs ?w (int i + 1)\<rparr>)
        [0 ..< length (states fr)] =
      map (\<lambda>st. to_lazy_state ?n (eager_state mr MAP_REQUIRE_SUPERFINAL ?n st)) (states fr)"
  proof (rule map_nth_eq)
    fix i
    assume i: "i < length (states fr)"
    from lazy_state_require_superfinal [OF sf fa, of i] ni wf i
    show "\<lparr>final = lazy_final ?w (int i + 1), arcs = lazy_arcs ?w (int i + 1)\<rparr> =
        to_lazy_state ?n (eager_state mr MAP_REQUIRE_SUPERFINAL ?n (states fr ! i))"
      by (simp add: ArcMapFst_fields)
  qed
  finally have lazy: "states (expand_all K ?w) =
      superfinal_state # map (\<lambda>st. to_lazy_state ?n (eager_state mr MAP_REQUIRE_SUPERFINAL ?n st)) (states fr)"
    by (simp add: lazy_superfinal_state [OF sf fa])
  show "length (states (expand_all K ?w)) = length (states (ArcMap_copy K mr fr ofst))"
    by (simp add: lazy eager)
  show "states (expand_all K ?w) =
        superfinal_state #
        map (to_lazy_state ?n) (take (length (states fr)) (states (ArcMap_copy K mr fr ofst)))"
    by (simp add: lazy eager o_def)
  show "states (ArcMap_copy K mr fr ofst) ! length (states fr) = superfinal_state"
    by (simp add: eager nth_append)
next
  assume a: "start fe = kNoStateId"
  let ?w = "ArcMapFst K fe me opts"
  have sf: "impl_superfinal ?w = kNoStateId" and fa: "impl_final_action ?w = MAP_NO_SUPERFINAL"
    using a by (simp_all add: Init_superfinal ArcMapFst_fields)
  have se: "settled ?w"
    by (simp add: settled_def fa)
  show "start (expand_all K ?w) = kNoStateId"
    using a by (simp add: expand_all_start ArcMapFst_Start FindOState_fst sf)
  show "start (ArcMap_copy K me fe ofst) = kNoStateId" "states (ArcMap_copy K me fe ofst) = []"
    by (simp_all add: ArcMap_copy_no_start [OF a])
  show "length (states (expand_all K ?w)) = length (states fe)"
    using a by (simp add: expand_all_states [OF ArcMapFst_coherent se] ArcMapFst_fields)
qed

theorem eager_lazy_equivalence_witness:
  "valid_state line_fst (start line_fst) \<and>
   FinalAction (IdentityArcMapper :: (int, int) ArcMapper) = MAP_NO_SUPERFINAL \<and>
   FinalAction (SuperFinalMapper 0 0 0 :: (int, int) ArcMapper) = MAP_REQUIRE_SUPERFINAL \<and>
   nextstate_invariant (SuperFinalMapper 0 0 0 :: (int, int) ArcMapper) \<and>
   wellformed line_fst \<and>
   start startless_fst = kNoStateId \<and>
   start (expand_all example_consts
      (ArcMapFst example_consts line_fst (IdentityArcMapper :: (int, int) ArcMapper)
         ArcMapFstOptions)) =
     start (ArcMap_copy example_consts (IdentityArcMapper :: (int, int) ArcMapper) line_fst
       empty_fst) \<and>
   states (expand_all example_consts
      (ArcMapFst example_consts line_fst (IdentityArcMapper :: (int, int) ArcMapper)
         ArcMapFstOptions)) =
     states (ArcMap_copy example_consts (IdentityArcMapper :: (int, int) ArcMapper) line_fst
       empty_fst) \<and>
   start (expand_all example_consts
      (ArcMapFst example_consts line_fst (SuperFinalMapper 0 0 0 :: (int, int) ArcMapper)
         ArcMapFstOptions)) = 1 \<and>
   states (expand_all example_consts
      (ArcMapFst example_consts line_fst (SuperFinalMapper 0 0 0 :: (int, int) ArcMapper)
         ArcMapFstOptions)) =
     [\<lparr>final = 1, arcs = []\<rparr>,
      \<lparr>final = 0, arcs = [Arc 1 2 1 2]\<rparr>,
      \<lparr>final = 0, arcs = [Arc 0 0 1 0]\<rparr>] \<and>
   states (ArcMap_copy example_consts (SuperFinalMapper 0 0 0 :: (int, int) ArcMapper) line_fst
       empty_fst) =
     [\<lparr>final = 0, arcs = [Arc 1 2 1 1]\<rparr>,
      \<lparr>final = 0, arcs = [Arc 0 0 1 2]\<rparr>,
      \<lparr>final = 1, arcs = []\<rparr>] \<and>
   start (expand_all example_consts
      (ArcMapFst example_consts startless_fst (IdentityArcMapper :: (int, int) ArcMapper)
         ArcMapFstOptions)) = kNoStateId \<and>
   length (states (expand_all example_consts
      (ArcMapFst example_consts startless_fst (IdentityArcMapper :: (int, int) ArcMapper)
         ArcMapFstOptions))) = 1"
proof -
  let ?id = "IdentityArcMapper :: (int, int) ArcMapper"
  let ?sf = "SuperFinalMapper 0 0 0 :: (int, int) ArcMapper"
  have h1: "valid_state line_fst (start line_fst)" "wellformed line_fst"
    "start startless_fst = kNoStateId" "length (states startless_fst) = 1"
    by code_simp+
  have h2: "FinalAction ?id = MAP_NO_SUPERFINAL" "FinalAction ?sf = MAP_REQUIRE_SUPERFINAL"
    by code_simp+
  have h3: "nextstate_invariant ?sf"
    by (simp add: nextstate_invariant_def SuperFinalMapper_def Arc_def)
  have e: "states (ArcMap_copy example_consts ?sf line_fst (empty_fst :: (int, nat) wfst)) =
     [\<lparr>final = 0, arcs = [Arc 1 2 1 1]\<rparr>,
      \<lparr>final = 0, arcs = [Arc 0 0 1 2]\<rparr>,
      \<lparr>final = 1, arcs = []\<rparr>]"
    "start (ArcMap_copy example_consts ?sf line_fst (empty_fst :: (int, nat) wfst)) = 0"
    "NumStates line_fst = 2" "length (states line_fst) = 2"
    by code_simp+
  have ss: "superfinal_state = (\<lparr>final = 1, arcs = []\<rparr> :: int vstate)"
    by (simp add: superfinal_state_def)
  from eager_lazy_equivalence [where f = line_fst and m = ?id and fr = line_fst and mr = ?sf
      and fe = startless_fst and me = ?id and K = example_consts and opts = ArcMapFstOptions
      and ofst = empty_fst] h1 h2 h3
  show ?thesis
    by (simp add: e ss to_lazy_id_def to_lazy_state_def Arc_def)
qed

theorem eager_lazy_equivalence_counterexample:
  "start (ArcMap_copy example_consts (SuperFinalMapper 0 0 0 :: (int, int) ArcMapper) loop_fst
       empty_fst) = 0 \<and>
   start (expand_all example_consts
      (ArcMapFst example_consts loop_fst (SuperFinalMapper 0 0 0 :: (int, int) ArcMapper)
         ArcMapFstOptions)) = 1 \<and>
   length (states (ArcMap_copy example_consts (IdentityArcMapper :: (int, int) ArcMapper)
       startless_fst empty_fst)) = 0 \<and>
   length (states (expand_all example_consts
      (ArcMapFst example_consts startless_fst (IdentityArcMapper :: (int, int) ArcMapper)
         ArcMapFstOptions))) = 1"
proof -
  let ?id = "IdentityArcMapper :: (int, int) ArcMapper"
  let ?sf = "SuperFinalMapper 0 0 0 :: (int, int) ArcMapper"
  let ?w = "ArcMapFst example_consts startless_fst ?id ArcMapFstOptions"
  have "start (ArcMap_copy example_consts ?sf loop_fst (empty_fst :: (int, nat) wfst)) = 0"
    by code_simp
  moreover have "fst (Start (ArcMapFst example_consts loop_fst ?sf ArcMapFstOptions)) = 1"
    by code_simp
  moreover have "length (states (ArcMap_copy example_consts ?id startless_fst
      (empty_fst :: (int, nat) wfst))) = 0"
    by code_simp
  moreover have "length (states (expand_all example_consts ?w)) = 1"
  proof -
    have n: "start startless_fst = kNoStateId" "length (states startless_fst) = 1"
      by code_simp+
    have fa: "impl_final_action ?w = MAP_NO_SUPERFINAL"
      using n by (simp add: ArcMapFst_fields)
    have se: "settled ?w"
      by (simp add: settled_def fa)
    show ?thesis
      using n by (simp add: expand_all_states [OF ArcMapFst_coherent se] ArcMapFst_fields)
  qed
  ultimately show ?thesis
    by (simp add: expand_all_start)
qed

text \<open>Queries about a state keep its cached arcs, whatever the store drops.\<close>

lemma Final_keeps_own_arcs:
  "cs_has_arcs (entry_of (cache_store (snd (Final K w s))) s) =
     cs_has_arcs (entry_of (cache_store w) s) \<and>
   cs_arcs (entry_of (cache_store (snd (Final K w s))) s) = cs_arcs (entry_of (cache_store w) s)"
proof (cases "HasFinal w s")
  case True
  then show ?thesis by (simp add: Final_cached)
next
  case False
  show ?thesis
    by (simp add: entry_of_def Final_uncached_store [OF False])
qed

lemma run_query_keeps_own_arcs:
  assumes "HasArcs w s" and "about s q"
  shows "HasArcs (run_query K w q) s \<and> Cache_Arcs (run_query K w q) s = Cache_Arcs w s"
proof (cases q)
  case Q_Start
  then show ?thesis
    using assms(1) by (simp add: HasArcs_def Cache_Arcs_def Start_fields)
next
  case (Q_Final t)
  then show ?thesis
    using assms Final_keeps_own_arcs [of K w s]
    by (simp add: HasArcs_entry Cache_Arcs_def)
next
  case (Q_Arcs t)
  then show ?thesis
    using assms by (simp add: ArcIterator_cached)
qed

lemma run_queries_keep_own_arcs:
  assumes "HasArcs w s" and "list_all (about s) qs"
  shows "HasArcs (run_queries K w qs) s \<and> Cache_Arcs (run_queries K w qs) s = Cache_Arcs w s"
  using assms
proof (induction qs arbitrary: w)
  case Nil
  then show ?case by (simp add: run_queries_Nil)
next
  case (Cons q qs)
  have 1: "HasArcs (run_query K w q) s \<and> Cache_Arcs (run_query K w q) s = Cache_Arcs w s"
    using Cons.prems by (simp add: run_query_keeps_own_arcs)
  have 2: "list_all (about s) qs"
    using Cons.prems(2) by simp
  show ?case
    using Cons.IH [OF _ 2, of "run_query K w q"] 1 by (simp add: run_queries_Cons)
qed

text \<open>With the options that do no caching, a change of one entry drops every other entry.\<close>

lemma SetArcs_drops_others:
  "no_caching (cache_options w) \<Longrightarrow> t \<noteq> s \<Longrightarrow> cache_store (SetArcs w t) s = None"
  by (simp add: SetArcs_def mutate_state_store drops_def)

lemma Expand_drops_others:
  assumes "no_caching (cache_options w)" and "t \<noteq> s"
  shows "cache_store (Expand K w t) s = None"
  using assms
  by (simp add: Expand_unfold Let_def SetArcs_drops_others superfinal_step_fields Expand_arcs_fields)

text \<open>
  C3, as amended. Reading the arcs of a state whose arcs are in the cache returns the
  cached arcs and leaves the wrapper as it is: the mapper is not called. The read that
  follows the first read of a state at once is such a read, and so is a read that follows
  any run of \<open>Start\<close>, \<open>Final\<close> of the same state and reads of the arcs of the same state.
  With the options that do no caching (garbage collection with limit 0, the default of
  \<open>ArcMapFstOptions\<close>), expanding another state drops the cached arcs of the state, so that
  its next read expands it again.
\<close>

theorem ArcIterator_memoized:
  "(HasArcs w s \<longrightarrow> ArcIterator K w s = (Cache_Arcs w s, w)) \<and>
   ArcIterator K (snd (ArcIterator K w s)) s = (fst (ArcIterator K w s), snd (ArcIterator K w s)) \<and>
   mapper_calls (snd (ArcIterator K (snd (ArcIterator K w s)) s)) =
     mapper_calls (snd (ArcIterator K w s)) \<and>
   (HasArcs w s \<and> list_all (about s) qs \<longrightarrow>
      ArcIterator K (run_queries K w qs) s = (Cache_Arcs w s, run_queries K w qs)) \<and>
   (no_caching (cache_options w) \<and> t \<noteq> s \<and> \<not> HasArcs w t \<longrightarrow>
      \<not> HasArcs (snd (ArcIterator K w t)) s)"
proof -
  have 1: "HasArcs w s \<longrightarrow> ArcIterator K w s = (Cache_Arcs w s, w)"
    by (simp add: ArcIterator_cached)
  have "Cache_Arcs (snd (ArcIterator K w s)) s = fst (ArcIterator K w s)"
    by (simp add: ArcIterator_def Let_def)
  then have 2: "ArcIterator K (snd (ArcIterator K w s)) s =
      (fst (ArcIterator K w s), snd (ArcIterator K w s))"
    by (simp add: ArcIterator_cached [OF ArcIterator_HasArcs])
  have 3: "HasArcs w s \<and> list_all (about s) qs \<longrightarrow>
      ArcIterator K (run_queries K w qs) s = (Cache_Arcs w s, run_queries K w qs)"
    using run_queries_keep_own_arcs [of w s qs K] by (auto simp: ArcIterator_cached)
  have 4: "no_caching (cache_options w) \<and> t \<noteq> s \<and> \<not> HasArcs w t \<longrightarrow>
      \<not> HasArcs (snd (ArcIterator K w t)) s"
    by (simp add: ArcIterator_def Let_def HasArcs_def Expand_drops_others)
  from 1 2 3 4 show ?thesis by simp
qed

theorem ArcIterator_memoized_witness:
  "(HasArcs read_0 0 \<and>
      ArcIterator example_consts read_0 0 = (Cache_Arcs read_0 0, read_0)) \<and>
   ((HasArcs read_0 0 \<and> list_all (about 0) [Q_Start, Q_Final 0, Q_Arcs 0]) \<and>
      ArcIterator example_consts
        (run_queries example_consts read_0 [Q_Start, Q_Final 0, Q_Arcs 0]) 0 =
        (Cache_Arcs read_0 0,
         run_queries example_consts read_0 [Q_Start, Q_Final 0, Q_Arcs 0])) \<and>
   ((no_caching (cache_options read_0) \<and> (1::int) \<noteq> 0 \<and> \<not> HasArcs read_0 1) \<and>
      \<not> HasArcs (snd (ArcIterator example_consts read_0 1)) 0)"
proof -
  have h: "HasArcs read_0 0 \<and> list_all (about 0) [Q_Start, Q_Final 0, Q_Arcs 0] \<and>
      no_caching (cache_options read_0) \<and> (1::int) \<noteq> 0 \<and> \<not> HasArcs read_0 1"
    by code_simp
  from h ArcIterator_memoized [of read_0 0 example_consts "[Q_Start, Q_Final 0, Q_Arcs 0]" 1]
  show ?thesis by blast
qed

text \<open>
  The claim as stated fails for a wrapper with the default options: after the arcs of
  state 0 and then those of state 1 have been read, the arcs of state 0 are not in the
  cache any more, and reading them again expands the state again and calls the mapper
  on its arc a second time.
\<close>

theorem ArcIterator_memoized_counterexample:
  "cache_options default_wrapper = ArcMapFstOptions \<and>
   HasArcs read_0 0 \<and> mapper_calls read_0 = [Arc 1 2 1 1] \<and>
   \<not> HasArcs read_0_1 0 \<and> mapper_calls read_0_1 = [Arc 1 2 1 1] \<and>
   mapper_calls read_0_1_0 = [Arc 1 2 1 1, Arc 1 2 1 1]"
  by code_simp















end
